theory Spec2Isabelle
  imports Main "HOL-Library.Multiset"
begin

section \<open>Values shared by the views\<close>

text \<open>
  Millisecond offsets are modelled as \<open>int\<close> (the integer-valued JavaScript numbers; every
  operation below is exact on them in the safe-integer range).  Strings are \<open>string\<close>,
  read as UTF-8 bytes; ASCII text is one \<open>char\<close> per JavaScript code unit.
\<close>

datatype js_error = TypeError

text \<open>What a caller can hand to a parameter typed \<open>number\<close>.\<close>

datatype jsnum = Undefined | Null | NaN | Num int

subsection \<open>Number and string helpers of the language\<close>

definition is_digit :: "char \<Rightarrow> bool" where
  "is_digit c = (48 \<le> (of_char c :: nat) \<and> (of_char c :: nat) \<le> 57)"

definition digit_val :: "char \<Rightarrow> nat" where
  "digit_val c = of_char c - of_char CHR ''0''"

text \<open>The value of a string of decimal digits.\<close>

definition read_dec :: "string \<Rightarrow> nat" where
  "read_dec s = foldl (\<lambda>acc c. 10 * acc + digit_val c) 0 s"

definition digit_char :: "nat \<Rightarrow> char" where
  "digit_char d = char_of (of_char CHR ''0'' + d)"

text \<open>\<open>Number.prototype.toString\<close> on a non-negative integer: decimal digits.\<close>

fun dec_nat :: "nat \<Rightarrow> string" where
  "dec_nat n = (if n < 10 then [digit_char n] else dec_nat (n div 10) @ [digit_char (n mod 10)])"

declare dec_nat.simps [simp del]

definition toString :: "int \<Rightarrow> string" where
  "toString i = (if i < 0 then CHR ''-'' # dec_nat (nat (- i)) else dec_nat (nat i))"

text \<open>\<open>String.prototype.padStart\<close> with a one-character filler.\<close>

definition padStart :: "nat \<Rightarrow> char \<Rightarrow> string \<Rightarrow> string" where
  "padStart n c s = replicate (n - length s) c @ s"

text \<open>The \<open>%\<close> operator: the remainder takes the sign of the dividend.\<close>

definition js_rem :: "int \<Rightarrow> int \<Rightarrow> int" where
  "js_rem a b = (if 0 \<le> a then a mod \<bar>b\<bar> else - ((- a) mod \<bar>b\<bar>))"

text \<open>A string in a condition is true unless it is missing or empty.\<close>

definition truthy :: "string option \<Rightarrow> bool" where
  "truthy v = (case v of None \<Rightarrow> False | Some s \<Rightarrow> s \<noteq> [])"

text \<open>\<open>String.prototype.toLowerCase\<close> on the ASCII letters (bytes above 127 are left as
  they are).\<close>

definition lower_char :: "char \<Rightarrow> char" where
  "lower_char c =
     (case map_of (zip ''ABCDEFGHIJKLMNOPQRSTUVWXYZ'' ''abcdefghijklmnopqrstuvwxyz'') c of
        Some l \<Rightarrow> l
      | None \<Rightarrow> c)"

definition toLowerCase :: "string \<Rightarrow> string" where
  "toLowerCase s = map lower_char s"

text \<open>\<open>startsWith\<close> and \<open>includes\<close>.\<close>

fun startsWith :: "string \<Rightarrow> string \<Rightarrow> bool" where
  "startsWith s [] = True"
| "startsWith [] (p # ps) = False"
| "startsWith (c # cs) (p # ps) = (c = p \<and> startsWith cs ps)"

fun str_includes :: "string \<Rightarrow> string \<Rightarrow> bool" where
  "str_includes [] p = (p = [])"
| "str_includes (c # cs) p = (startsWith (c # cs) p \<or> str_includes cs p)"

text \<open>\<open>String.prototype.trim\<close>: the ASCII white space (tab, line feed, vertical tab,
  form feed, carriage return, space) is removed at both ends.\<close>

definition is_space :: "char \<Rightarrow> bool" where
  "is_space c = ((of_char c :: nat) = 32 \<or> (9 \<le> (of_char c :: nat) \<and> (of_char c :: nat) \<le> 13))"

definition trim :: "string \<Rightarrow> string" where
  "trim s = rev (dropWhile is_space (rev (dropWhile is_space s)))"

text \<open>\<open>Array.prototype.findIndex\<close>: the loop runs over the indices from \<open>k\<close> on and
  returns the first index whose element satisfies the predicate, \<open>-1\<close> when none does.\<close>

fun findIndex_from :: "int \<Rightarrow> ('a \<Rightarrow> bool) \<Rightarrow> 'a list \<Rightarrow> int" where
  "findIndex_from k P [] = - 1"
| "findIndex_from k P (x # xs) = (if P x then k else findIndex_from (k + 1) P xs)"

definition findIndex :: "('a \<Rightarrow> bool) \<Rightarrow> 'a list \<Rightarrow> int" where
  "findIndex P xs = findIndex_from 0 P xs"

text \<open>\<open>Array.prototype.sort\<close> with a comparator is stable: an element is placed before the
  first element it does not compare greater than.  The comparator returns the sign of its
  result (\<open>NaN\<close> counts as zero).\<close>

fun insort_cmp :: "('a \<Rightarrow> 'a \<Rightarrow> int) \<Rightarrow> 'a \<Rightarrow> 'a list \<Rightarrow> 'a list" where
  "insort_cmp c x [] = [x]"
| "insort_cmp c x (y # ys) = (if c x y \<le> 0 then x # y # ys else y # insort_cmp c x ys)"

definition sort_cmp :: "('a \<Rightarrow> 'a \<Rightarrow> int) \<Rightarrow> 'a list \<Rightarrow> 'a list" where
  "sort_cmp c xs = foldr (insort_cmp c) xs []"

section \<open>Time formatter\<close>

text \<open>
  \<^verbatim>\<open>formatTime\<close> of TranscriptionView.vue.  The guard \<^verbatim>\<open>!ms && ms !== 0\<close> holds for
  \<^verbatim>\<open>undefined\<close>, \<^verbatim>\<open>null\<close> and \<^verbatim>\<open>NaN\<close> and for no other number.
\<close>

fun formatTime :: "jsnum \<Rightarrow> string" where
  "formatTime (Num ms) =
     (let totalSeconds = ms div 1000;
          minutes = totalSeconds div 60;
          seconds = js_rem totalSeconds 60
      in padStart 2 CHR ''0'' (toString minutes) @ '':'' @ padStart 2 CHR ''0'' (toString seconds))"
| "formatTime Undefined = ''00:00''"
| "formatTime Null = ''00:00''"
| "formatTime NaN = ''00:00''"

text \<open>Reading a rendered time back: the field before the colon and the field after it.\<close>

definition minutes_field :: "string \<Rightarrow> string" where
  "minutes_field s = takeWhile (\<lambda>c. c \<noteq> CHR '':'') s"

definition seconds_field :: "string \<Rightarrow> string" where
  "seconds_field s = tl (dropWhile (\<lambda>c. c \<noteq> CHR '':'') s)"


section \<open>Transcript segment store\<close>

record segment =
  speaker_id :: string
  seg_start :: int
  seg_end :: int
  seg_text :: string

text \<open>The transcript as the server sends it.  The view tests \<^verbatim>\<open>transcript.value.content\<close>
  for presence in some places and not in others, so the field is optional here.\<close>

record transcript_doc =
  content :: "segment list option"
  plain_text :: string

subsection \<open>The segment under the playhead\<close>

text \<open>\<^verbatim>\<open>activeSegmentIndex\<close>: no transcript gives \<open>-1\<close>; a transcript without a segment
  array makes \<^verbatim>\<open>.findIndex\<close> throw.\<close>

definition activeSegmentIndex :: "transcript_doc option \<Rightarrow> int \<Rightarrow> js_error + int" where
  "activeSegmentIndex tr currentTime =
     (case tr of
        None \<Rightarrow> Inr (- 1)
      | Some t \<Rightarrow>
         (case content t of
            None \<Rightarrow> Inl TypeError
          | Some segs \<Rightarrow>
              Inr (findIndex (\<lambda>seg. currentTime \<ge> seg_start seg \<and> currentTime \<le> seg_end seg) segs)))"

subsection \<open>Speaker statistics\<close>

text \<open>The values \<^verbatim>\<open>Math.round((dur / totalDuration) * 100)\<close> can take.  With integer
  durations the quotient is taken exactly and rounded half up, as \<^verbatim>\<open>Math.round\<close> does;
  a zero divisor gives \<^verbatim>\<open>NaN\<close> for \<open>0 / 0\<close> and an infinity otherwise, and
  \<^verbatim>\<open>Math.round\<close> returns these unchanged.\<close>

datatype pct = Pct int | PctNaN | PctInf | PctNegInf

definition round_pct :: "int \<Rightarrow> int \<Rightarrow> pct" where
  "round_pct dur totalDuration =
     (if totalDuration = 0
      then (if dur = 0 then PctNaN else if 0 < dur then PctInf else PctNegInf)
      else Pct ((200 * dur + totalDuration) div (2 * totalDuration)))"

record stat =
  speaker :: string
  percentage :: pct

text \<open>\<^verbatim>\<open>stats[seg.speaker_id] = (stats[seg.speaker_id] || 0) + dur\<close> on an object whose
  keys are kept in the order of their first insertion.\<close>

fun add_dur :: "(string \<times> int) list \<Rightarrow> string \<Rightarrow> int \<Rightarrow> (string \<times> int) list" where
  "add_dur [] k d = [(k, 0 + d)]"
| "add_dur ((k', v) # r) k d = (if k' = k then (k', v + d) # r else (k', v) # add_dur r k d)"

text \<open>The \<^verbatim>\<open>forEach\<close> loop: the per-speaker sums and the total.\<close>

fun accumulate :: "segment list \<Rightarrow> (string \<times> int) list \<times> int \<Rightarrow> (string \<times> int) list \<times> int" where
  "accumulate [] acc = acc"
| "accumulate (seg # segs) (stats, totalDuration) =
     (let dur = seg_end seg - seg_start seg
      in accumulate segs (add_dur stats (speaker_id seg) dur, totalDuration + dur))"

text \<open>\<^verbatim>\<open>Object.entries\<close> lists the keys that are canonical array indices first, in
  ascending numeric order, and the other keys after them in insertion order.\<close>

definition is_array_index :: "string \<Rightarrow> bool" where
  "is_array_index k = (k \<noteq> [] \<and> list_all is_digit k \<and> dec_nat (read_dec k) = k \<and> read_dec k < 4294967295)"

definition object_entries :: "(string \<times> 'v) list \<Rightarrow> (string \<times> 'v) list" where
  "object_entries al =
     sort_key (\<lambda>(k, v). read_dec k) (filter (\<lambda>(k, v). is_array_index k) al) @
     filter (\<lambda>(k, v). \<not> is_array_index k) al"

text \<open>The comparator \<^verbatim>\<open>(a, b) => b.percentage - a.percentage\<close>, as the sign of the
  difference; a \<^verbatim>\<open>NaN\<close> difference counts as zero.\<close>

fun pct_minus :: "pct \<Rightarrow> pct \<Rightarrow> pct" where
  "pct_minus (Pct x) (Pct y) = Pct (x - y)"
| "pct_minus PctNaN _ = PctNaN"
| "pct_minus _ PctNaN = PctNaN"
| "pct_minus PctInf PctInf = PctNaN"
| "pct_minus PctNegInf PctNegInf = PctNaN"
| "pct_minus PctInf _ = PctInf"
| "pct_minus PctNegInf _ = PctNegInf"
| "pct_minus (Pct x) PctInf = PctNegInf"
| "pct_minus (Pct x) PctNegInf = PctInf"

definition by_share_desc :: "stat \<Rightarrow> stat \<Rightarrow> int" where
  "by_share_desc a b =
     (case pct_minus (percentage b) (percentage a) of
        Pct d \<Rightarrow> sgn d | PctNaN \<Rightarrow> 0 | PctInf \<Rightarrow> 1 | PctNegInf \<Rightarrow> - 1)"

definition speakerStats :: "transcript_doc option \<Rightarrow> stat list" where
  "speakerStats tr =
     (case tr of
        None \<Rightarrow> []
      | Some t \<Rightarrow>
         (case content t of
            None \<Rightarrow> []
          | Some segs \<Rightarrow>
             (let (stats, totalDuration) = accumulate segs ([], 0)
              in sort_cmp by_share_desc
                   (map (\<lambda>(spk, dur). \<lparr>speaker = spk, percentage = round_pct dur totalDuration\<rparr>)
                        (object_entries stats)))))"

text \<open>The total spoken duration of a segment list and the sum of the finite shares.\<close>

definition total_duration :: "segment list \<Rightarrow> int" where
  "total_duration segs = (\<Sum>seg\<leftarrow>segs. seg_end seg - seg_start seg)"

fun pct_value :: "pct \<Rightarrow> int option" where
  "pct_value (Pct x) = Some x"
| "pct_value _ = None"

definition share_sum :: "stat list \<Rightarrow> int" where
  "share_sum sts = (\<Sum>st\<leftarrow>sts. case percentage st of Pct x \<Rightarrow> x | _ \<Rightarrow> 0)"

text \<open>The interval test of \<^verbatim>\<open>activeSegmentIndex\<close>, and the record \<^verbatim>\<open>speakerStats\<close>
  builds from an entry.\<close>

definition covers :: "int \<Rightarrow> segment \<Rightarrow> bool" where
  "covers t seg = (seg_start seg \<le> t \<and> t \<le> seg_end seg)"

definition as_stat :: "int \<Rightarrow> string \<times> int \<Rightarrow> stat" where
  "as_stat T = (\<lambda>(spk, dur). \<lparr>speaker = spk, percentage = round_pct dur T\<rparr>)"

section \<open>The transcription view\<close>

text \<open>
  The refs of TranscriptionView.vue that the functions below read or write, together with
  what they act on outside the component: the media element, the timers of the page, the
  requests sent, the notifications shown and the console.
\<close>

datatype duration = DurNaN | DurInf | Dur int

text \<open>The audio or video element.  Its times are kept in milliseconds (the element keeps
  seconds and the view multiplies by 1000).  \<open>el_loaded_listeners\<close> holds the one-shot
  \<^verbatim>\<open>loadedmetadata\<close> listeners a deferred seek has registered, each with the seek it will
  perform.\<close>

record media_element =
  el_currentTime :: int
  el_duration :: duration
  el_paused :: bool
  el_readyState :: nat
  el_play_allowed :: bool
  el_pause_calls :: nat
  el_load_calls :: nat
  el_loaded_listeners :: "(int \<times> int option) list"

record recording_doc =
  rec_status :: string
  rec_error_message :: "string option"

record editing =
  ed_id :: string
  ed_name :: string

datatype toast = Success string | Failure string

datatype request = GetRecording | GetTranscript | PostTranscribe | PutSpeakers string string

datatype timer_callback = FetchTranscript | FetchRecording

text \<open>The outcome of an awaited request: a response body, an error response with its
  status and the \<^verbatim>\<open>detail\<close> of its body, or no response at all.\<close>

datatype 'a response = Ok 'a | HttpError nat "string option" | NoResponse

record view =
  transcript :: "transcript_doc option"
  recording :: "recording_doc option"
  currentTime :: int
  isPlaying :: bool
  audioRef :: "media_element option"
  pollInterval :: "nat option"
  statusInterval :: "nat option"
  errorState :: string
  editingSpeaker :: "editing option"
  speakerColors :: "string \<rightharpoonup> string"
  stopAt :: "int option"
  timers :: "(nat \<times> timer_callback) list"
  next_timer :: nat
  requests :: "request list"
  toasts :: "toast list"
  console :: "string list"

subsection \<open>Speaker identity\<close>

text \<open>\<^verbatim>\<open>hash << 5\<close> converts to a signed 32-bit integer before and after shifting.\<close>

definition toInt32 :: "int \<Rightarrow> int" where
  "toInt32 x = (x + 2147483648) mod 4294967296 - 2147483648"

definition shl5 :: "int \<Rightarrow> int" where
  "shl5 h = toInt32 (toInt32 h * 32)"

text \<open>The hash loop of \<^verbatim>\<open>generateColor\<close>; \<^verbatim>\<open>charCodeAt\<close> is the character code
  (labels of ASCII characters).\<close>

fun color_hash :: "int \<Rightarrow> string \<Rightarrow> int" where
  "color_hash h [] = h"
| "color_hash h (c # cs) = color_hash (of_char c + (shl5 h - h)) cs"

definition colors :: "string list" where
  "colors = [''bg-blue-500'', ''bg-green-500'', ''bg-yellow-500'', ''bg-purple-500'',
             ''bg-pink-500'', ''bg-indigo-500'', ''bg-red-500'', ''bg-orange-500'',
             ''bg-teal-500'', ''bg-cyan-500'']"

definition generateColor :: "string \<Rightarrow> string" where
  "generateColor speakerId = colors ! nat (\<bar>color_hash 0 speakerId\<bar> mod int (length colors))"

text \<open>\<^verbatim>\<open>getAvatarColor\<close> fills the cache on a miss and returns the cached colour.\<close>

definition getAvatarColor :: "string \<Rightarrow> view \<Rightarrow> string \<times> view" where
  "getAvatarColor speakerId s =
     (let s' = (if \<not> truthy (speakerColors s speakerId)
                then s\<lparr>speakerColors := (speakerColors s)(speakerId \<mapsto> generateColor speakerId)\<rparr>
                else s)
      in (case speakerColors s' speakerId of Some c \<Rightarrow> (c, s') | None \<Rightarrow> ([], s')))"

subsection \<open>Timers of the page\<close>

text \<open>\<^verbatim>\<open>setInterval\<close> returns a fresh positive identifier; \<^verbatim>\<open>clearInterval\<close> removes
  the timer with the identifier, if there is one.\<close>

definition setInterval :: "timer_callback \<Rightarrow> view \<Rightarrow> nat \<times> view" where
  "setInterval cb s =
     (next_timer s, s\<lparr>timers := timers s @ [(next_timer s, cb)], next_timer := next_timer s + 1\<rparr>)"

definition clearInterval :: "nat \<Rightarrow> view \<Rightarrow> view" where
  "clearInterval i s = s\<lparr>timers := filter (\<lambda>(j, cb). j \<noteq> i) (timers s)\<rparr>"

text \<open>The block \<^verbatim>\<open>if (pollInterval.value) { clearInterval(pollInterval.value);
  pollInterval.value = null; }\<close> that three handlers share.\<close>

definition stopPolling :: "view \<Rightarrow> view" where
  "stopPolling s =
     (case pollInterval s of
        None \<Rightarrow> s
      | Some i \<Rightarrow> (clearInterval i s)\<lparr>pollInterval := None\<rparr>)"

subsection \<open>Fetching the recording and the transcript\<close>

text \<open>Each function is the part of the handler that runs once the awaited request has
  settled; the request itself is sent when the handler is called (\<open>call_\<close>).\<close>

definition call_fetchTranscript :: "view \<Rightarrow> view" where
  "call_fetchTranscript s = s\<lparr>requests := requests s @ [GetTranscript]\<rparr>"

definition call_fetchRecording :: "view \<Rightarrow> view" where
  "call_fetchRecording s = s\<lparr>requests := requests s @ [GetRecording]\<rparr>"

definition fetchRecording :: "recording_doc response \<Rightarrow> view \<Rightarrow> view" where
  "fetchRecording res s =
     (case res of
        Ok r \<Rightarrow>
          (let s1 = s\<lparr>recording := Some r\<rparr>
           in if rec_status r = ''error''
              then stopPolling
                     (s1\<lparr>errorState :=
                          (if truthy (rec_error_message r) then the (rec_error_message r)
                           else ''Transcription failed. Please try again.'')\<rparr>)
              else s1\<lparr>errorState := []\<rparr>)
      | _ \<Rightarrow> s\<lparr>recording := None\<rparr>)"

definition fetchTranscript :: "transcript_doc response \<Rightarrow> view \<Rightarrow> view" where
  "fetchTranscript res s =
     (case res of
        Ok t \<Rightarrow> stopPolling (s\<lparr>transcript := Some t\<rparr>)
      | HttpError status d \<Rightarrow>
          (if status = 404 then
             (let detail = (if truthy d then the d else [])
              in if detail \<noteq> [] \<and> str_includes (toLowerCase detail) ''failed''
                 then stopPolling (s\<lparr>errorState := detail\<rparr>)
                 else if pollInterval s = None
                 then (let (i, s1) = setInterval FetchTranscript s in s1\<lparr>pollInterval := Some i\<rparr>)
                 else s)
           else s\<lparr>errorState := ''Unexpected error fetching transcript.''\<rparr>)
      | NoResponse \<Rightarrow> s\<lparr>console := console s @ [''error'']\<rparr>)"

definition retryTranscribe :: "unit response \<Rightarrow> view \<Rightarrow> view" where
  "retryTranscribe res s =
     (let s0 = s\<lparr>requests := requests s @ [PostTranscribe]\<rparr>
      in case res of
           Ok u \<Rightarrow>
             (let s1 = s0\<lparr>errorState := [], transcript := None\<rparr>;
                  s2 = (case pollInterval s1 of None \<Rightarrow> s1 | Some i \<Rightarrow> clearInterval i s1);
                  (i, s3) = setInterval FetchTranscript s2
              in s3\<lparr>pollInterval := Some i\<rparr>)
         | _ \<Rightarrow> s0\<lparr>errorState := ''Retry failed. Please check settings.''\<rparr>)"

definition onMounted :: "view \<Rightarrow> view" where
  "onMounted s =
     (let (i, s1) = setInterval FetchRecording (call_fetchTranscript (call_fetchRecording s))
      in s1\<lparr>statusInterval := Some i\<rparr>)"

definition onUnmounted :: "view \<Rightarrow> view" where
  "onUnmounted s =
     (let s1 = (case pollInterval s of None \<Rightarrow> s | Some i \<Rightarrow> clearInterval i s)
      in case statusInterval s1 of None \<Rightarrow> s1 | Some i \<Rightarrow> clearInterval i s1)"

text \<open>A timer that is still set fires and calls its handler, which sends the request.\<close>

definition timer_fires :: "nat \<Rightarrow> view \<Rightarrow> view" where
  "timer_fires i s =
     (case map_of (timers s) i of
        None \<Rightarrow> s
      | Some FetchTranscript \<Rightarrow> call_fetchTranscript s
      | Some FetchRecording \<Rightarrow> call_fetchRecording s)"

text \<open>The state of a freshly created component.\<close>

definition init_view :: view where
  "init_view =
     \<lparr>transcript = None, recording = None, currentTime = 0, isPlaying = False,
      audioRef = None, pollInterval = None, statusInterval = None, errorState = [],
      editingSpeaker = None, speakerColors = Map.empty, stopAt = None,
      timers = [], next_timer = 1, requests = [], toasts = [], console = []\<rparr>"

text \<open>What can happen to a mounted component, in any order: a timer fires, a transcript or
  recording request settles, a retry is clicked and its request settles, the component is
  unmounted.\<close>

datatype event =
    TimerFires nat
  | TranscriptSettles "transcript_doc response"
  | RecordingSettles "recording_doc response"
  | RetrySettles "unit response"
  | Unmounted

fun step :: "view \<Rightarrow> event \<Rightarrow> view" where
  "step s (TimerFires i) = timer_fires i s"
| "step s (TranscriptSettles res) = fetchTranscript res s"
| "step s (RecordingSettles res) = fetchRecording res s"
| "step s (RetrySettles res) = retryTranscribe res s"
| "step s Unmounted = onUnmounted s"

definition run :: "event list \<Rightarrow> view" where
  "run es = foldl step (onMounted init_view) es"

text \<open>The timers that are set for a handler.\<close>

definition timers_of :: "timer_callback \<Rightarrow> view \<Rightarrow> nat list" where
  "timers_of cb s = map fst (filter (\<lambda>(i, c). c = cb) (timers s))"

subsection \<open>Renaming a speaker\<close>






subsection \<open>Playback\<close>

text \<open>A number in a condition is true unless it is missing or zero.\<close>

definition truthy_num :: "int option \<Rightarrow> bool" where
  "truthy_num v = (case v of None \<Rightarrow> False | Some x \<Rightarrow> x \<noteq> 0)"

definition truthy_duration :: "duration \<Rightarrow> bool" where
  "truthy_duration d = (case d of DurNaN \<Rightarrow> False | DurInf \<Rightarrow> True | Dur x \<Rightarrow> x \<noteq> 0)"

text \<open>\<^verbatim>\<open>timeInSeconds <= element.duration\<close> and \<^verbatim>\<open>timeInSeconds > element.duration\<close>;
  both are false against \<^verbatim>\<open>NaN\<close>.\<close>

definition le_duration :: "int \<Rightarrow> duration \<Rightarrow> bool" where
  "le_duration t d = (case d of DurNaN \<Rightarrow> False | DurInf \<Rightarrow> True | Dur x \<Rightarrow> t \<le> x)"

definition gt_duration :: "int \<Rightarrow> duration \<Rightarrow> bool" where
  "gt_duration t d = (case d of DurNaN \<Rightarrow> False | DurInf \<Rightarrow> False | Dur x \<Rightarrow> x < t)"

text \<open>\<^verbatim>\<open>onTimeUpdate\<close>: the current time is republished; an armed bound that has been
  reached pauses the element and is cleared.\<close>

definition onTimeUpdate :: "view \<Rightarrow> view" where
  "onTimeUpdate s =
     (case audioRef s of
        None \<Rightarrow> s
      | Some el \<Rightarrow>
          (let now = el_currentTime el;
               s1 = s\<lparr>currentTime := now\<rparr>
           in if truthy_num (stopAt s1) \<and> now \<ge> the (stopAt s1)
              then s1\<lparr>audioRef := Some (el\<lparr>el_paused := True, el_pause_calls := el_pause_calls el + 1\<rparr>),
                      isPlaying := False,
                      stopAt := None\<rparr>
              else s1))"

text \<open>The inner helper \<^verbatim>\<open>doSeekAndPlay\<close> of \<^verbatim>\<open>seekTo\<close>.  A time the element cannot
  take is replaced by the duration or by zero (an infinite duration is never exceeded).  The
  promise of \<^verbatim>\<open>play()\<close> is settled at once: playback starts, or the rejection is logged.\<close>

definition doSeekAndPlay :: "int \<Rightarrow> int option \<Rightarrow> view \<Rightarrow> view" where
  "doSeekAndPlay startMs endMs s =
     (case audioRef s of
        None \<Rightarrow> s
      | Some el \<Rightarrow>
          (let (t, warn) =
                 (if startMs \<ge> 0 \<and> le_duration startMs (el_duration el) then (startMs, False)
                  else if truthy_duration (el_duration el) \<and> gt_duration startMs (el_duration el)
                  then (case el_duration el of Dur x \<Rightarrow> (x, True) | _ \<Rightarrow> (0, True))
                  else (0, True));
               bound = (if truthy_num endMs then endMs else None);
               el1 = el\<lparr>el_currentTime := t\<rparr>;
               log = (if warn then [''Invalid seek time''] else [])
           in if el_play_allowed el
              then s\<lparr>audioRef := Some (el1\<lparr>el_paused := False\<rparr>), stopAt := bound,
                      isPlaying := True, console := console s @ log\<rparr>
              else s\<lparr>audioRef := Some el1, stopAt := bound,
                      console := console s @ log @ [''Playback failed'']\<rparr>))"

text \<open>\<^verbatim>\<open>seekTo\<close>: at once when the metadata are loaded, otherwise through a one-shot
  \<^verbatim>\<open>loadedmetadata\<close> listener, after asking the element to load.\<close>

definition seekTo :: "int \<Rightarrow> int option \<Rightarrow> view \<Rightarrow> view" where
  "seekTo ms endMs s =
     (case audioRef s of
        None \<Rightarrow> s
      | Some el \<Rightarrow>
          (if el_readyState el \<ge> 1 then doSeekAndPlay ms endMs s
           else s\<lparr>audioRef := Some (el\<lparr>el_loaded_listeners := el_loaded_listeners el @ [(ms, endMs)],
                                         el_load_calls := el_load_calls el + 1\<rparr>)\<rparr>))"

text \<open>The element has loaded its metadata: it knows its duration, and the one-shot
  listeners run in the order they were added and are removed.\<close>

definition loadedmetadata :: "duration \<Rightarrow> view \<Rightarrow> view" where
  "loadedmetadata d s =
     (case audioRef s of
        None \<Rightarrow> s
      | Some el \<Rightarrow>
          fold (\<lambda>(ms, endMs). doSeekAndPlay ms endMs) (el_loaded_listeners el)
            (s\<lparr>audioRef := Some (el\<lparr>el_duration := d, el_readyState := 1, el_loaded_listeners := []\<rparr>)\<rparr>))"

text \<open>The element reports a playback position: it holds the new time and the view's
  \<^verbatim>\<open>@timeupdate\<close> handler runs.\<close>

definition tick :: "int \<Rightarrow> view \<Rightarrow> view" where
  "tick now s =
     onTimeUpdate (s\<lparr>audioRef := map_option (\<lambda>el. el\<lparr>el_currentTime := now\<rparr>) (audioRef s)\<rparr>)"

text \<open>How often the element has been paused so far.\<close>

definition pauses :: "view \<Rightarrow> nat" where
  "pauses s = (case audioRef s of None \<Rightarrow> 0 | Some el \<Rightarrow> el_pause_calls el)"

text \<open>Ticks in sequence; for each tick, whether it paused the element.\<close>

fun ticks :: "int list \<Rightarrow> view \<Rightarrow> bool list \<times> view" where
  "ticks [] s = ([], s)"
| "ticks (now # rest) s =
     (let s1 = tick now s;
          (bs, s2) = ticks rest s1
      in ((pauses s1 \<noteq> pauses s) # bs, s2))"

text \<open>The flags a bound \<open>e\<close> asks for: the first tick at or after \<open>e\<close>, and no other.\<close>

fun crossing :: "int \<Rightarrow> int list \<Rightarrow> bool list" where
  "crossing e [] = []"
| "crossing e (t # ts) = (if t \<ge> e then True # replicate (length ts) False else False # crossing e ts)"

subsection \<open>The timer invariant\<close>

text \<open>Timer identifiers are distinct and older than the next one to be handed out; a timer
  that calls \<^verbatim>\<open>fetchTranscript\<close> is the one \<^verbatim>\<open>pollInterval\<close> holds, and a timer that calls
  \<^verbatim>\<open>fetchRecording\<close> is the one \<^verbatim>\<open>statusInterval\<close> holds.\<close>

definition timer_inv :: "view \<Rightarrow> bool" where
  "timer_inv s =
     (distinct (map fst (timers s)) \<and>
      (\<forall>i \<in> set (map fst (timers s)). i < next_timer s) \<and>
      (\<forall>i \<in> set (timers_of FetchTranscript s). pollInterval s = Some i) \<and>
      (\<forall>i \<in> set (timers_of FetchRecording s). statusInterval s = Some i))"

subsection \<open>Example states\<close>

text \<open>An element whose metadata are loaded, in a view that holds it.\<close>

definition loaded_element :: media_element where
  "loaded_element =
     \<lparr>el_currentTime = 0, el_duration = Dur 60000, el_paused = True, el_readyState = 4,
      el_play_allowed = True, el_pause_calls = 0, el_load_calls = 0, el_loaded_listeners = []\<rparr>"

definition loaded_view :: view where
  "loaded_view = init_view\<lparr>audioRef := Some loaded_element\<rparr>"

text \<open>A transcript of three segments of \<open>Speaker 1\<close> and two of \<open>Speaker 2\<close>, shown (so
  both labels have their colour in the cache), with \<open>Speaker 1\<close> being renamed.\<close>

definition utterance :: "string \<Rightarrow> int \<Rightarrow> int \<Rightarrow> segment" where
  "utterance who a b = \<lparr>speaker_id = who, seg_start = a, seg_end = b, seg_text = ''...''\<rparr>"

definition five_segments :: "segment list" where
  "five_segments =
     [utterance ''Speaker 1'' 0 1000, utterance ''Speaker 2'' 1000 2000,
      utterance ''Speaker 1'' 2000 3000, utterance ''Speaker 2'' 3000 4000,
      utterance ''Speaker 1'' 4000 5000]"


definition shown :: "segment list \<Rightarrow> view" where
  "shown segs =
     fold (\<lambda>seg s. snd (getAvatarColor (speaker_id seg) s)) segs
       (init_view\<lparr>transcript := Some \<lparr>content = Some segs, plain_text = []\<rparr>\<rparr>)"


section \<open>The project view: citations\<close>

text \<open>
  \<^verbatim>\<open>transformCitations\<close> of the project view (the second component of MinutesView.vue).
  Strings are UTF-8 bytes, so the Chinese words of the templates are written byte by
  byte.  \<open>projectId\<close> is the route parameter of the view.
\<close>

definition nl :: char where
  "nl = CHR 0x0A"

text \<open>\<^verbatim>\<open>Array.prototype.join('\n')\<close>; a template literal that runs over several lines is
  the join of its lines.\<close>

fun join_nl :: "string list \<Rightarrow> string" where
  "join_nl [] = []"
| "join_nl [l] = l"
| "join_nl (l # m # ls) = l @ nl # join_nl (m # ls)"

text \<open>The dot of a regular expression matches every character but a line terminator:
  line feed, carriage return, U+2028 and U+2029 (three bytes each in UTF-8).\<close>

definition lt_at :: "string \<Rightarrow> bool" where
  "lt_at s = (startsWith s [CHR 0x0A] \<or> startsWith s [CHR 0x0D] \<or>
              startsWith s [CHR 0xE2, CHR 0x80, CHR 0xA8] \<or>
              startsWith s [CHR 0xE2, CHR 0x80, CHR 0xA9])"

text \<open>The rest of \<^verbatim>\<open>/\[\[(.*?)\]\]/\<close> after the opening brackets: the shortest run of
  characters, none a line terminator, that is followed by \<open>]]\<close>.  The result is the captured
  name and the text after the closing brackets.\<close>

fun find_close :: "string \<Rightarrow> (string \<times> string) option" where
  "find_close [] = None"
| "find_close (c # cs) =
     (if c = CHR '']'' \<and> startsWith cs '']'' then Some ([], tl cs)
      else if lt_at (c # cs) then None
      else (case find_close cs of None \<Rightarrow> None | Some (name, rest) \<Rightarrow> Some (c # name, rest)))"

text \<open>\<^verbatim>\<open>/^Prefix_(.*)_(\d+)$/i\<close> on a name that holds no line terminator: after the prefix
  (letters compared without case), the greedy group runs up to the last underscore, and
  what follows it must be one or more digits.\<close>

definition match_name_id :: "string \<Rightarrow> string \<Rightarrow> (string \<times> string) option" where
  "match_name_id prefix s =
     (if startsWith (toLowerCase s) prefix
      then (let r = rev (drop (length prefix) s);
                ds = rev (takeWhile (\<lambda>c. c \<noteq> CHR ''_'') r)
            in case dropWhile (\<lambda>c. c \<noteq> CHR ''_'') r of
                 [] \<Rightarrow> None
               | u # g \<Rightarrow> if ds \<noteq> [] \<and> list_all is_digit ds then Some (rev g, ds) else None)
      else None)"

text \<open>\<^verbatim>\<open>/^(PRD|SPECS|TIMELINE|GLOSSARY|BUSINESS)_(\d+)$/i\<close>: the key, lower-cased, and the
  digits.\<close>

definition match_kb :: "string \<Rightarrow> (string \<times> string) option" where
  "match_kb s =
     (let key = toLowerCase (takeWhile (\<lambda>c. c \<noteq> CHR ''_'') s)
      in case dropWhile (\<lambda>c. c \<noteq> CHR ''_'') s of
           [] \<Rightarrow> None
         | u # ds \<Rightarrow>
             if key \<in> set [''prd'', ''specs'', ''timeline'', ''glossary'', ''business'']
                \<and> ds \<noteq> [] \<and> list_all is_digit ds
             then Some (key, ds) else None)"

definition kb_section :: "string \<Rightarrow> string" where
  "kb_section key =
     (if key = ''prd'' then ''prd''
      else if key = ''specs'' then ''specs''
      else if key = ''timeline'' then ''timeline''
      else if key = ''glossary'' then ''glossary''
      else if key = ''business'' then ''business_flows''
      else [])"

definition kb_title :: "string \<Rightarrow> string" where
  "kb_title s =
     (if s = ''prd'' then [CHR 0xE9, CHR 0x9C, CHR 0x80, CHR 0xE6, CHR 0xB1, CHR 0x82, CHR 0xE6, CHR 0x96, CHR 0x87, CHR 0xE6, CHR 0xA1, CHR 0xA3]
      else if s = ''specs'' then [CHR 0xE5, CHR 0x8A, CHR 0x9F, CHR 0xE8, CHR 0x83, CHR 0xBD, CHR 0xE8, CHR 0xAF, CHR 0xB4, CHR 0xE6, CHR 0x98, CHR 0x8E, CHR 0xE4, CHR 0xB9, CHR 0xA6]
      else if s = ''timeline'' then [CHR 0xE6, CHR 0x97, CHR 0xB6, CHR 0xE9, CHR 0x97, CHR 0xB4, CHR 0xE8, CHR 0xA1, CHR 0xA8]
      else if s = ''glossary'' then [CHR 0xE6, CHR 0x9C, CHR 0xAF, CHR 0xE8, CHR 0xAF, CHR 0xAD, CHR 0xE8, CHR 0xA1, CHR 0xA8]
      else if s = ''business_flows'' then [CHR 0xE4, CHR 0xB8, CHR 0x9A, CHR 0xE5, CHR 0x8A, CHR 0xA1, CHR 0xE6, CHR 0xB5, CHR 0x81, CHR 0xE7, CHR 0xA8, CHR 0x8B]
      else s)"

text \<open>The local variables of the replacer function.\<close>

record citation =
  icon :: string
  ctype :: string
  ident :: string
  sect :: string
  displayName :: string
  isCitation :: bool
  href :: string

definition parse_source :: "string \<Rightarrow> string \<Rightarrow> citation" where
  "parse_source projectId sourceName =
     (let c0 = \<lparr>icon = ''description'', ctype = [], ident = [], sect = [],
                 displayName = sourceName, isCitation = False, href = ''#''\<rparr>
      in if str_includes (toLowerCase sourceName) ''minutes'' then
           (case match_name_id ''minutes_'' sourceName of
              Some (g1, g2) \<Rightarrow>
                c0\<lparr>icon := ''event_note'', displayName := g1, ident := g2, ctype := ''minutes'',
                    href := ''/recording/'' @ g2 @ ''/minutes'', isCitation := True\<rparr>
            | None \<Rightarrow> c0\<lparr>icon := ''event_note''\<rparr>)
         else if str_includes (toLowerCase sourceName) ''transcript'' then
           (case match_name_id ''transcript_'' sourceName of
              Some (g1, g2) \<Rightarrow>
                c0\<lparr>icon := ''record_voice_over'', displayName := g1, ident := g2,
                    ctype := ''transcript'', href := ''/recording/'' @ g2, isCitation := True\<rparr>
            | None \<Rightarrow> c0\<lparr>icon := ''record_voice_over''\<rparr>)
         else if match_kb sourceName \<noteq> None then
           (case match_kb sourceName of
              Some (key, g2) \<Rightarrow>
                c0\<lparr>icon := ''library_books'', sect := kb_section key,
                    displayName := kb_title (kb_section key), ctype := ''kb'',
                    href := ''/project/'' @ projectId @ ''?tab=kb'', isCitation := True\<rparr>
            | None \<Rightarrow> c0\<lparr>icon := ''library_books''\<rparr>)
         else if startsWith (toLowerCase sourceName) ''document_'' then
           (case match_name_id ''document_'' sourceName of
              Some (g1, g2) \<Rightarrow>
                c0\<lparr>icon := ''article'', displayName := g1, ident := g2, ctype := ''document'',
                    href := ''/project/'' @ projectId @ ''?tab=files'', isCitation := True\<rparr>
            | None \<Rightarrow> c0\<lparr>icon := ''article''\<rparr>)
         else c0)"

text \<open>The two templates.\<close>

definition link_html :: "citation \<Rightarrow> string" where
  \<open>link_html c =
     (let href = href c; ty = ctype c; ident = ident c; sect = sect c;
          displayName = displayName c; icon = icon c
      in join_nl
       [''<a href="'' @ href @ ''" class="source-link inline-flex items-center gap-1 px-1.5 py-0.5 mx-1 rounded bg-primary/10 hover:bg-primary/20 text-primary text-xs font-medium cursor-pointer transition-colors align-middle no-underline select-none" '',
        ''            data-type="'' @ ty @ ''" '',
        ''            data-id="'' @ ident @ ''" '',
        ''            data-section="'' @ sect @ ''"'',
        ''            title="'' @ [CHR 0xE6, CHR 0x9F, CHR 0xA5] @ [CHR 0xE7, CHR 0x9C, CHR 0x8B] @ [CHR 0xE6, CHR 0x9D, CHR 0xA5] @ [CHR 0xE6, CHR 0xBA, CHR 0x90] @ '': '' @ displayName @ ''">'',
        ''            <span class="material-symbols-outlined text-[12px]">'' @ icon @ ''</span>'',
        ''            <span class="max-w-[150px] truncate">'' @ displayName @ ''</span>'',
        ''            <span class="material-symbols-outlined text-[10px]">open_in_new</span>'',
        ''        </a>''])\<close>

definition badge_html :: "string \<Rightarrow> string \<Rightarrow> string" where
  \<open>badge_html ic sourceName =
     join_nl
       [''<span class="inline-flex items-center gap-1 px-1.5 py-0.5 mx-1 rounded bg-primary/10 text-primary text-xs font-medium align-middle cursor-default select-none">'',
        ''          <span class="material-symbols-outlined text-[12px]">'' @ ic @ ''</span>'',
        ''          <span>'' @ sourceName @ ''</span>'',
        ''        </span>'']\<close>

definition replacement :: "string \<Rightarrow> string \<Rightarrow> string" where
  "replacement projectId sourceName =
     (let c = parse_source projectId sourceName
      in if isCitation c then link_html c else badge_html (icon c) sourceName)"

text \<open>\<^verbatim>\<open>html.replace(/\[\[(.*?)\]\]/g, replacer)\<close>: the matches are found from left to
  right, each search starting where the previous match ended; text outside the matches is
  kept.\<close>

function transformCitations :: "string \<Rightarrow> string \<Rightarrow> string" where
  "transformCitations projectId [] = []"
| "transformCitations projectId (c # cs) =
     (if c = CHR ''['' \<and> startsWith cs ''[''
      then (case find_close (tl cs) of
              Some (name, rest) \<Rightarrow> replacement projectId name @ transformCitations projectId rest
            | None \<Rightarrow> c # transformCitations projectId cs)
      else c # transformCitations projectId cs)"
  by pat_completeness auto
termination
proof (relation "measure (\<lambda>(p, s). length s)")
  show "wf (measure (\<lambda>(p, s). length s))" by simp
next
  fix projectId c cs x2 x y
  assume "c = CHR ''['' \<and> startsWith cs ''[''" and "find_close (tl cs) = Some x2" and "(x, y) = x2"
  moreover have "find_close s = Some (name, rest) \<Longrightarrow> length rest < length s" for s name rest
    by (induction s arbitrary: name) (auto split: if_splits option.splits)
  ultimately have "length y < length (tl cs)" by metis
  then show "((projectId, y), (projectId, c # cs)) \<in> measure (\<lambda>(p, s). length s)" by simp
qed simp_all

subsection \<open>Texts the transformer leaves alone\<close>

text \<open>\<open>quiet s\<close>: no position of \<open>s\<close> starts a match of the pattern.  \<open>no_rr s\<close>: \<open>s\<close>
  does not contain \<open>]]\<close>.\<close>

fun quiet :: "string \<Rightarrow> bool" where
  "quiet [] = True"
| "quiet (c # cs) = ((c = CHR ''['' \<and> startsWith cs ''['' \<longrightarrow> find_close (tl cs) = None) \<and> quiet cs)"

fun no_rr :: "string \<Rightarrow> bool" where
  "no_rr [] = True"
| "no_rr [c] = True"
| "no_rr (a # b # cs) = (\<not> (a = CHR '']'' \<and> b = CHR '']'') \<and> no_rr (b # cs))"

section \<open>The project view: event streams\<close>

text \<open>
  The read loops of \<^verbatim>\<open>sendChatMessage\<close> and \<^verbatim>\<open>confirmGenerate\<close>.  A chunk is the text
  the decoder returns for one read.  \<^verbatim>\<open>JSON.parse\<close> is a parameter of the loops: a function
  from a text to the value it denotes, \<open>None\<close> where \<^verbatim>\<open>JSON.parse\<close> throws.
\<close>

datatype json = JNull | JBool bool | JNum int | JStr string | JArr "json list" | JObj "(string \<times> json) list"

type_synonym json_parse = "string \<Rightarrow> json option"

text \<open>\<^verbatim>\<open>data.k\<close>: a \<^verbatim>\<open>TypeError\<close> on \<^verbatim>\<open>null\<close>, the member of an object (the last one of
  that name), \<^verbatim>\<open>undefined\<close> (\<open>None\<close>) otherwise.\<close>

definition get_prop :: "json \<Rightarrow> string \<Rightarrow> js_error + json option" where
  "get_prop d k = (case d of JNull \<Rightarrow> Inl TypeError | JObj ms \<Rightarrow> Inr (map_of (rev ms) k) | _ \<Rightarrow> Inr None)"

text \<open>A value appended to a string or put into a template.\<close>

fun json_text :: "json \<Rightarrow> string" and json_items :: "json list \<Rightarrow> string" where
  "json_text JNull = ''null''"
| "json_text (JBool b) = (if b then ''true'' else ''false'')"
| "json_text (JNum n) = toString n"
| "json_text (JStr s) = s"
| "json_text (JObj ms) = ''[object Object]''"
| "json_text (JArr xs) = json_items xs"
| "json_items [] = []"
| "json_items [x] = (if x = JNull then [] else json_text x)"
| "json_items (x # y # ys) = (if x = JNull then [] else json_text x) @ '','' @ json_items (y # ys)"

definition text_of :: "json option \<Rightarrow> string" where
  "text_of v = (case v of None \<Rightarrow> ''undefined'' | Some j \<Rightarrow> json_text j)"

definition js_truthy :: "json option \<Rightarrow> bool" where
  "js_truthy v =
     (case v of
        None \<Rightarrow> False
      | Some JNull \<Rightarrow> False
      | Some (JBool b) \<Rightarrow> b
      | Some (JNum n) \<Rightarrow> n \<noteq> 0
      | Some (JStr s) \<Rightarrow> s \<noteq> []
      | Some _ \<Rightarrow> True)"

text \<open>\<^verbatim>\<open>split('\n\n')\<close> and \<^verbatim>\<open>split('\n')\<close>: the pieces between the separators, found from
  left to right; there is always at least one piece.\<close>

fun split_blank :: "string \<Rightarrow> string list" where
  "split_blank [] = [[]]"
| "split_blank [c] = [[c]]"
| "split_blank (a # b # cs) =
     (if a = nl \<and> b = nl then [] # split_blank cs
      else (case split_blank (b # cs) of p # ps \<Rightarrow> (a # p) # ps | [] \<Rightarrow> [[a]]))"

fun split_nl :: "string \<Rightarrow> string list" where
  "split_nl [] = [[]]"
| "split_nl (c # cs) =
     (if c = nl then [] # split_nl cs
      else (case split_nl cs of p # ps \<Rightarrow> (c # p) # ps | [] \<Rightarrow> [[c]]))"

text \<open>\<^verbatim>\<open>replace(pattern, '')\<close> with a string pattern removes its first occurrence.\<close>

fun remove_first :: "string \<Rightarrow> string \<Rightarrow> string" where
  "remove_first pat [] = []"
| "remove_first pat (c # cs) =
     (if startsWith (c # cs) pat then drop (length pat) (c # cs) else c # remove_first pat cs)"

subsection \<open>The chat stream\<close>

record assistant_msg =
  msg_content :: string
  msg_thoughts :: "json option list"
  msg_actions :: "(json option \<times> json option) list"

record chat =
  assistantMsg :: assistant_msg
  currentSessionId :: "json option"
  session_fetches :: nat
  chat_console :: "string list"

definition chat_log :: "chat \<Rightarrow> chat" where
  "chat_log c = c\<lparr>chat_console := chat_console c @ [''Parse error'']\<rparr>"

definition append_content :: "string \<Rightarrow> chat \<Rightarrow> chat" where
  "append_content t c = c\<lparr>assistantMsg := (assistantMsg c)\<lparr>msg_content := msg_content (assistantMsg c) @ t\<rparr>\<rparr>"

text \<open>The body of the \<^verbatim>\<open>try\<close> for one event; an exception (from \<^verbatim>\<open>JSON.parse\<close> or from
  reading a property of \<^verbatim>\<open>null\<close>) is logged.\<close>

definition chat_event :: "json_parse \<Rightarrow> string \<Rightarrow> string \<Rightarrow> chat \<Rightarrow> chat" where
  "chat_event parse event dataStr c =
     (case parse dataStr of
        None \<Rightarrow> chat_log c
      | Some d \<Rightarrow>
          if event = ''thought'' then
            (case get_prop d ''content'' of
               Inl e \<Rightarrow> chat_log c
             | Inr v \<Rightarrow> c\<lparr>assistantMsg := (assistantMsg c)\<lparr>msg_thoughts := msg_thoughts (assistantMsg c) @ [v]\<rparr>\<rparr>)
          else if event = ''action'' then
            (case (get_prop d ''tool'', get_prop d ''query'') of
               (Inr t, Inr q) \<Rightarrow>
                 c\<lparr>assistantMsg := (assistantMsg c)\<lparr>msg_actions := msg_actions (assistantMsg c) @ [(t, q)]\<rparr>\<rparr>
             | _ \<Rightarrow> chat_log c)
          else if event = ''answer'' then
            (case get_prop d ''content'' of
               Inl e \<Rightarrow> chat_log c
             | Inr v \<Rightarrow> append_content (text_of v) c)
          else if event = ''session_id'' then
            (case get_prop d ''id'' of
               Inl e \<Rightarrow> (if js_truthy (currentSessionId c) then c\<lparr>session_fetches := session_fetches c + 1\<rparr>
                          else chat_log c)
             | Inr v \<Rightarrow>
                 (if js_truthy (currentSessionId c) then c else c\<lparr>currentSessionId := v\<rparr>)
                   \<lparr>session_fetches := session_fetches c + 1\<rparr>)
          else if event = ''error'' then
            (case get_prop d ''content'' of
               Inl e \<Rightarrow> chat_log c
             | Inr v \<Rightarrow> append_content ([nl, nl] @ ''*Error: '' @ text_of v @ ''*'') c)
          else c)"

text \<open>One piece of a chunk.\<close>

definition chat_block :: "json_parse \<Rightarrow> string \<Rightarrow> chat \<Rightarrow> chat" where
  "chat_block parse line c =
     (if startsWith line ''event:'' then
        (case split_nl line of
           [] \<Rightarrow> c
         | eventLine # rest \<Rightarrow>
             (let dataLine = join_nl rest
              in if eventLine \<noteq> [] \<and> dataLine \<noteq> []
                 then chat_event parse (trim (remove_first ''event: '' eventLine))
                        (remove_first ''data: '' dataLine) c
                 else c))
      else c)"

text \<open>The loop of \<^verbatim>\<open>sendChatMessage\<close>: every chunk is split and handled by itself.\<close>

definition chat_chunk :: "json_parse \<Rightarrow> string \<Rightarrow> chat \<Rightarrow> chat" where
  "chat_chunk parse chunk c = fold (chat_block parse) (split_blank chunk) c"

definition chat_consume :: "json_parse \<Rightarrow> string list \<Rightarrow> chat \<Rightarrow> chat" where
  "chat_consume parse chunks c = fold (chat_chunk parse) chunks c"

subsection \<open>The knowledge-base stream\<close>

record kb =
  buffer :: string
  researchStatusMessage :: "json option"
  kb_content :: "json option"
  isGeneratingKB :: bool
  showResearchModal :: bool
  kb_toasts :: "toast list"
  kb_console :: "string list"

definition kb_log :: "kb \<Rightarrow> kb" where
  "kb_log s = s\<lparr>kb_console := kb_console s @ [''error'']\<rparr>"

definition kb_event :: "json_parse \<Rightarrow> string \<Rightarrow> string \<Rightarrow> kb \<Rightarrow> kb" where
  "kb_event parse event dataStr s =
     (if event = ''status'' then
        (case parse dataStr of
           None \<Rightarrow> kb_log s
         | Some d \<Rightarrow> (case get_prop d ''message'' of
                        Inl e \<Rightarrow> kb_log s
                      | Inr v \<Rightarrow> s\<lparr>researchStatusMessage := v\<rparr>))
      else if event = ''done'' then
        (case parse dataStr of
           None \<Rightarrow> kb_log s
         | Some d \<Rightarrow> (case get_prop d ''content'' of
                        Inl e \<Rightarrow> kb_log s
                      | Inr v \<Rightarrow>
                          (if js_truthy v then s\<lparr>kb_content := v\<rparr> else s)
                            \<lparr>isGeneratingKB := False, showResearchModal := False,
                             kb_toasts := kb_toasts s @ [Success [CHR 0xE7, CHR 0x9F, CHR 0xA5, CHR 0xE8, CHR 0xAF, CHR 0x86, CHR 0xE5, CHR 0xBA, CHR 0x93, CHR 0xE7, CHR 0x94, CHR 0x9F, CHR 0xE6, CHR 0x88, CHR 0x90, CHR 0xE5, CHR 0xAE, CHR 0x8C, CHR 0xE6, CHR 0x88, CHR 0x90, CHR 0xEF, CHR 0xBC, CHR 0x81]]\<rparr>))
      else if event = ''error'' then
        (let shown = (case parse dataStr of
                        None \<Rightarrow> dataStr
                      | Some d \<Rightarrow> (case get_prop d ''message'' of
                                     Inl e \<Rightarrow> dataStr
                                   | Inr v \<Rightarrow> text_of v))
         in s\<lparr>kb_toasts := kb_toasts s @ [Failure ([CHR 0xE7, CHR 0x94, CHR 0x9F, CHR 0xE6, CHR 0x88, CHR 0x90, CHR 0xE5, CHR 0x87, CHR 0xBA, CHR 0xE9, CHR 0x94, CHR 0x99] @ '': '' @ shown)],
               isGeneratingKB := False, showResearchModal := False\<rparr>)
      else s)"

definition kb_block :: "json_parse \<Rightarrow> string \<Rightarrow> kb \<Rightarrow> kb" where
  "kb_block parse line s =
     (if startsWith line ''event: '' then
        (case split_nl line of
           [] \<Rightarrow> s
         | eventLine # dataLines \<Rightarrow>
             (let event = trim (remove_first ''event: '' eventLine);
                  dataStr = trim (remove_first ''data: '' (join_nl dataLines))
              in if dataStr \<noteq> [] then kb_event parse event dataStr s else s))
      else s)"

text \<open>The loop of \<^verbatim>\<open>confirmGenerate\<close>: the chunk is appended to the buffer, the buffer is
  split, its last piece is kept as the new buffer and the other pieces are handled.\<close>

definition kb_chunk :: "json_parse \<Rightarrow> string \<Rightarrow> kb \<Rightarrow> kb" where
  "kb_chunk parse chunk s =
     (let lines = split_blank (buffer s @ chunk)
      in fold (kb_block parse) (butlast lines) (s\<lparr>buffer := last lines\<rparr>))"

definition kb_consume :: "json_parse \<Rightarrow> string list \<Rightarrow> kb \<Rightarrow> kb" where
  "kb_consume parse chunks s = fold (kb_chunk parse) chunks s"

subsection \<open>Example streams\<close>

text \<open>A function that agrees with \<^verbatim>\<open>JSON.parse\<close> on the texts of the examples: the two
  complete documents are read, every other text (the truncated ones among them) is
  rejected.\<close>

definition example_parse :: json_parse where
  \<open>example_parse t =
     (if t = ''{"content":"hello"}'' then Some (JObj [(''content'', JStr ''hello'')])
      else if t = ''{"message":"hello"}'' then Some (JObj [(''message'', JStr ''hello'')])
      else None)\<close>

text \<open>The event of the specification's example, cut inside its payload, and a status
  event cut at the same place.\<close>

definition answer_head :: string where
  \<open>answer_head = ''event: answer'' @ [nl] @ ''data: {"content":"hel''\<close>

definition answer_tail :: string where
  \<open>answer_tail = ''lo"}'' @ [nl, nl]\<close>

definition status_head :: string where
  \<open>status_head = ''event: status'' @ [nl] @ ''data: {"message":"hel''\<close>

definition new_chat :: chat where
  "new_chat =
     \<lparr>assistantMsg = \<lparr>msg_content = [], msg_thoughts = [], msg_actions = []\<rparr>,
      currentSessionId = Some (JNum 1), session_fetches = 0, chat_console = []\<rparr>"

definition new_kb :: kb where
  "new_kb =
     \<lparr>buffer = [], researchStatusMessage = Some (JStr ''Starting Deep Research Agent...''),
      kb_content = None, isGeneratingKB = True, showResearchModal = True,
      kb_toasts = [], kb_console = []\<rparr>"

section \<open>The minutes view: streaming\<close>

text \<open>
  \<^verbatim>\<open>startStreaming\<close> of MinutesView.vue.  What the network does is its argument: the
  request fails, or a response arrives with its \<^verbatim>\<open>ok\<close> flag, its status text and, when it
  has a body, the chunks the reader returns and how the reading ends.
\<close>

datatype read_end = StreamDone | StreamFails string

datatype fetch_result =
    FetchFails string
  | Response bool string "(string list \<times> read_end) option"

record minutes_doc =
  min_content :: "string option"

record minutes_view =
  loading :: bool
  isGenerating :: bool
  streamContent :: string
  minutes :: "minutes_doc option"
  mv_toasts :: "toast list"
  mv_console :: "string list"

definition fetchMinutes :: "minutes_doc response \<Rightarrow> minutes_view \<Rightarrow> minutes_view" where
  "fetchMinutes res s =
     (case res of
        Ok m \<Rightarrow>
          (let s1 = s\<lparr>minutes := Some m\<rparr>
           in if truthy (min_content m) then s1\<lparr>streamContent := the (min_content m)\<rparr> else s1)
      | _ \<Rightarrow> s\<lparr>minutes := None\<rparr>)"

text \<open>The \<^verbatim>\<open>while (true)\<close> loop: each chunk is appended to \<^verbatim>\<open>streamContent\<close>; the loop
  ends when the reader reports the end of the stream or throws.\<close>

fun read_loop :: "string list \<Rightarrow> read_end \<Rightarrow> minutes_view \<Rightarrow> minutes_view \<times> string option" where
  "read_loop [] StreamDone s = (s, None)"
| "read_loop [] (StreamFails e) s = (s, Some e)"
| "read_loop (chunk # chunks) e s = read_loop chunks e (s\<lparr>streamContent := streamContent s @ chunk\<rparr>)"

text \<open>How an \<^verbatim>\<open>Error\<close> object reads when concatenated to a string: its name alone when
  the message is empty.\<close>

definition error_toString :: "string \<Rightarrow> string" where
  "error_toString msg = (if msg = [] then ''Error'' else ''Error: '' @ msg)"

text \<open>The \<^verbatim>\<open>try\<close> block: the state it leaves and the exception it throws, if any.\<close>

definition streaming_try :: "fetch_result \<Rightarrow> minutes_doc response \<Rightarrow> minutes_view \<Rightarrow> minutes_view \<times> string option" where
  "streaming_try fr mres s =
     (case fr of
        FetchFails e \<Rightarrow> (s, Some e)
      | Response ok statusText body \<Rightarrow>
          if \<not> ok then (s, Some (error_toString statusText))
          else (case body of
                  None \<Rightarrow> (s, Some (error_toString ''No reader available''))
                | Some (chunks, e) \<Rightarrow>
                    (case read_loop chunks e s of
                       (s1, Some err) \<Rightarrow> (s1, Some err)
                     | (s1, None) \<Rightarrow> (fetchMinutes mres s1, None))))"

definition startStreaming :: "fetch_result \<Rightarrow> minutes_doc response \<Rightarrow> minutes_view \<Rightarrow> minutes_view" where
  "startStreaming fr mres s =
     (let s0 = s\<lparr>loading := True, isGenerating := True, streamContent := []\<rparr>;
          (s1, thrown) = streaming_try fr mres s0;
          s2 = (case thrown of
                  None \<Rightarrow> s1
                | Some e \<Rightarrow> s1\<lparr>mv_toasts := mv_toasts s1 @ [Failure (''Generation failed: '' @ e)],
                                mv_console := mv_console s1 @ [e]\<rparr>)
      in s2\<lparr>loading := False, isGenerating := False\<rparr>)"

text \<open>Whether the run failed, and the text received before it ended.\<close>

definition stream_failed :: "fetch_result \<Rightarrow> bool" where
  "stream_failed fr =
     (case fr of
        FetchFails e \<Rightarrow> True
      | Response ok statusText body \<Rightarrow>
          \<not> ok \<or> (case body of None \<Rightarrow> True | Some (chunks, StreamFails e) \<Rightarrow> True | Some (chunks, StreamDone) \<Rightarrow> False))"

definition received :: "fetch_result \<Rightarrow> string" where
  "received fr =
     (case fr of
        Response True statusText (Some (chunks, e)) \<Rightarrow> concat chunks
      | _ \<Rightarrow> [])"

definition idle_minutes_view :: minutes_view where
  "idle_minutes_view =
     \<lparr>loading = False, isGenerating = False, streamContent = [], minutes = None,
      mv_toasts = [], mv_console = []\<rparr>"

text \<open>A stream that breaks after two chunks.\<close>

definition broken_stream :: fetch_result where
  "broken_stream = Response True ''OK'' (Some ([''# Minu'', ''tes''], StreamFails ''TypeError: network error''))"

section \<open>Properties of the time formatter\<close>

lemma digit_val_digit_char: "d < 10 \<Longrightarrow> digit_val (digit_char d) = d"
  by (simp add: digit_val_def digit_char_def)

lemma is_digit_digit_char: "d < 10 \<Longrightarrow> is_digit (digit_char d)"
  by (simp add: is_digit_def digit_char_def)

lemma read_dec_snoc: "read_dec (s @ [c]) = 10 * read_dec s + digit_val c"
  by (simp add: read_dec_def)

lemma read_dec_dec_nat: "read_dec (dec_nat n) = n"
proof (induction n rule: dec_nat.induct)
  case (1 n)
  show ?case
  proof (cases "n < 10")
    case True
    then show ?thesis by (simp add: dec_nat.simps [of n] read_dec_def digit_val_digit_char)
  next
    case False
    with 1 show ?thesis
      by (simp add: dec_nat.simps [of n] read_dec_snoc digit_val_digit_char)
  qed
qed

lemma digits_dec_nat: "\<forall>c \<in> set (dec_nat n). is_digit c"
proof (induction n rule: dec_nat.induct)
  case (1 n)
  show ?case
  proof (cases "n < 10")
    case True
    then show ?thesis by (simp add: dec_nat.simps [of n] is_digit_digit_char)
  next
    case False
    with 1 show ?thesis
      by (simp add: dec_nat.simps [of n] is_digit_digit_char)
  qed
qed

lemma length_dec_nat_pos: "0 < length (dec_nat n)"
  by (subst dec_nat.simps) simp

lemma length_dec_nat_small: "n < 10 \<Longrightarrow> length (dec_nat n) = 1"
  by (subst dec_nat.simps) simp

lemma length_dec_nat_two: "10 \<le> n \<Longrightarrow> n < 100 \<Longrightarrow> length (dec_nat n) = 2"
  by (subst dec_nat.simps) (simp add: length_dec_nat_small)

lemma length_dec_nat_big: "100 \<le> n \<Longrightarrow> 2 < length (dec_nat n)"
proof -
  assume h: "100 \<le> n"
  then have "10 \<le> n div 10" by simp
  then have "2 \<le> length (dec_nat (n div 10))"
    using length_dec_nat_pos [of "n div 10 div 10"]
    by (subst dec_nat.simps) (simp add: Suc_le_eq)
  with h show ?thesis by (subst dec_nat.simps) simp
qed

lemma read_dec_replicate_zero: "read_dec (replicate k CHR ''0'' @ s) = read_dec s"
  by (induction k) (simp_all add: read_dec_def digit_val_def)

lemma colon_not_digit: "is_digit c \<Longrightarrow> c \<noteq> CHR '':''"
  by (auto simp: is_digit_def)

lemma minutes_field_split: "\<forall>c \<in> set a. is_digit c \<Longrightarrow> minutes_field (a @ CHR '':'' # b) = a"
  unfolding minutes_field_def
  by (induction a) (auto dest: colon_not_digit)

lemma seconds_field_split: "\<forall>c \<in> set a. is_digit c \<Longrightarrow> seconds_field (a @ CHR '':'' # b) = b"
  unfolding seconds_field_def
  by (induction a) (auto dest: colon_not_digit)

lemma formatTime_nonneg:
  assumes "0 \<le> ms"
  shows "formatTime (Num ms) =
    padStart 2 CHR ''0'' (dec_nat (nat (ms div 1000 div 60))) @ '':'' @
    padStart 2 CHR ''0'' (dec_nat (nat (ms div 1000 mod 60)))"
proof -
  have "0 \<le> ms div 1000 \<and> 0 \<le> ms div 1000 div 60 \<and> 0 \<le> ms div 1000 mod 60"
    using assms by auto
  then have "\<not> ms div 1000 mod 60 < 0" and "\<not> ms div 1000 div 60 < 0" and "0 \<le> ms div 1000"
    by linarith+
  then show ?thesis
    by (simp add: Let_def toString_def js_rem_def)
qed

lemma digits_padStart: "\<forall>c \<in> set s. is_digit c \<Longrightarrow> \<forall>c \<in> set (padStart n CHR ''0'' s). is_digit c"
  by (auto simp: padStart_def is_digit_def)

lemma read_dec_padStart: "read_dec (padStart n CHR ''0'' s) = read_dec s"
  by (simp add: padStart_def read_dec_replicate_zero)

lemma length_padStart: "length (padStart n c s) = max n (length s)"
  by (simp add: padStart_def)

text \<open>
  Claim C10, as amended.  \<^verbatim>\<open>formatTime\<close> returns a string for every argument.  For
  \<^verbatim>\<open>undefined\<close>, \<^verbatim>\<open>null\<close> and \<^verbatim>\<open>NaN\<close> it is \<open>00:00\<close>.  For a non-negative
  number of milliseconds it is a minutes field, a colon and a seconds field: both fields
  are decimal digits, the seconds field has exactly two digits and a value below 60, the
  minutes field has at least two digits, and sixty times the minutes plus the seconds is
  \<open>floor (ms / 1000)\<close>, so the minutes are not wrapped into hours.  The minutes field is
  longer than two digits exactly from 100 minutes (6000000 ms) on;  6000000 ms renders as
  \<open>100:00\<close>.
\<close>

theorem formatTime_total_and_unwrapped:
  "formatTime Undefined = ''00:00'' \<and> formatTime Null = ''00:00'' \<and> formatTime NaN = ''00:00'' \<and>
   (0 \<le> ms \<longrightarrow>
      (let out = formatTime (Num ms); mm = minutes_field out; ss = seconds_field out
       in out = mm @ '':'' @ ss \<and>
          (\<forall>c \<in> set mm. is_digit c) \<and> (\<forall>c \<in> set ss. is_digit c) \<and>
          length ss = 2 \<and> 2 \<le> length mm \<and>
          read_dec ss < 60 \<and>
          int (read_dec mm) * 60 + int (read_dec ss) = ms div 1000 \<and>
          (2 < length mm \<longleftrightarrow> 6000000 \<le> ms))) \<and>
   formatTime (Num 6000000) = ''100:00''"
proof -
  have ex: "formatTime (Num 6000000) = ''100:00''"
    by code_simp
  have main: "(let out = formatTime (Num ms); mm = minutes_field out; ss = seconds_field out
       in out = mm @ '':'' @ ss \<and>
          (\<forall>c \<in> set mm. is_digit c) \<and> (\<forall>c \<in> set ss. is_digit c) \<and>
          length ss = 2 \<and> 2 \<le> length mm \<and>
          read_dec ss < 60 \<and>
          int (read_dec mm) * 60 + int (read_dec ss) = ms div 1000 \<and>
          (2 < length mm \<longleftrightarrow> 6000000 \<le> ms))" if nn: "0 \<le> ms"
  proof -
    define m where "m = nat (ms div 1000 div 60)"
    define s where "s = nat (ms div 1000 mod 60)"
    define mm where "mm = padStart 2 CHR ''0'' (dec_nat m)"
    define ss where "ss = padStart 2 CHR ''0'' (dec_nat s)"
    have out: "formatTime (Num ms) = mm @ CHR '':'' # ss"
      using formatTime_nonneg [OF nn] by (simp add: mm_def ss_def m_def s_def)
    have dm: "\<forall>c \<in> set mm. is_digit c"
      unfolding mm_def by (rule digits_padStart) (rule digits_dec_nat)
    have ds: "\<forall>c \<in> set ss. is_digit c"
      unfolding ss_def by (rule digits_padStart) (rule digits_dec_nat)
    have mf: "minutes_field (formatTime (Num ms)) = mm"
      unfolding out by (rule minutes_field_split [OF dm])
    have sf: "seconds_field (formatTime (Num ms)) = ss"
      unfolding out by (rule seconds_field_split [OF dm])
    have s60: "s < 60" using nn by (simp add: s_def nat_less_iff)
    have ls: "length ss = 2"
    proof (cases "s < 10")
      case True then show ?thesis by (simp add: ss_def length_padStart length_dec_nat_small)
    next
      case False with s60 show ?thesis by (simp add: ss_def length_padStart length_dec_nat_two)
    qed
    have lm: "2 \<le> length mm" by (simp add: mm_def length_padStart)
    have rs: "read_dec ss = s" by (simp add: ss_def read_dec_padStart read_dec_dec_nat)
    have rm: "read_dec mm = m" by (simp add: mm_def read_dec_padStart read_dec_dec_nat)
    have val: "int m * 60 + int s = ms div 1000"
      using nn by (simp add: m_def s_def pos_imp_zdiv_nonneg_iff)
    have m100: "100 \<le> m \<longleftrightarrow> 6000000 \<le> ms"
    proof -
      have "100 \<le> ms div 60000 \<longleftrightarrow> 6000000 \<le> ms" by linarith
      moreover have "ms div 1000 div 60 = ms div 60000" by simp
      moreover have "0 \<le> ms div 60000" using nn by simp
      ultimately show ?thesis unfolding m_def by (simp add: le_nat_iff)
    qed
    have big: "2 < length mm \<longleftrightarrow> 100 \<le> m"
    proof (cases "100 \<le> m")
      case True then show ?thesis by (simp add: mm_def length_padStart length_dec_nat_big)
    next
      case False
      then have "length (dec_nat m) \<le> 2"
        by (cases "m < 10") (simp_all add: length_dec_nat_small length_dec_nat_two)
      with False show ?thesis by (simp add: mm_def length_padStart)
    qed
    show ?thesis
      unfolding Let_def mf sf
      using out dm ds ls lm rs rm val s60 m100 big by simp
  qed
  show ?thesis using ex main by simp
qed

theorem formatTime_total_and_unwrapped_witness:
  "(0::int) \<le> 3725000 \<and>
   (let out = formatTime (Num 3725000)
    in length (seconds_field out) = 2 \<and>
       int (read_dec (minutes_field out)) * 60 + int (read_dec (seconds_field out)) = 3725 \<and>
       \<not> 2 < length (minutes_field out))"
  using formatTime_total_and_unwrapped [of 3725000] by (simp add: Let_def)

text \<open>An input of exactly sixty minutes renders with a two-digit minutes field.\<close>

theorem formatTime_sixty_minutes_counterexample:
  "(60 * 60 * 1000 :: int) \<le> 3600000 \<and>
   formatTime (Num 3600000) = ''60:00'' \<and>
   \<not> 2 < length (minutes_field (formatTime (Num 3600000)))"
  by code_simp

section \<open>Properties of the segment store\<close>

lemma findIndex_from_none: "\<forall>x \<in> set xs. \<not> P x \<Longrightarrow> findIndex_from k P xs = - 1"
  by (induction xs arbitrary: k) auto

lemma findIndex_from_first:
  "\<exists>x \<in> set xs. P x \<Longrightarrow>
   \<exists>i < length xs. findIndex_from k P xs = k + int i \<and> P (xs ! i) \<and> (\<forall>j < i. \<not> P (xs ! j))"
proof (induction xs arbitrary: k)
  case Nil
  then show ?case by simp
next
  case (Cons x xs)
  show ?case
  proof (cases "P x")
    case True
    then show ?thesis by (intro exI [of _ 0]) simp
  next
    case False
    with Cons.prems have "\<exists>y \<in> set xs. P y" by simp
    from Cons.IH [OF this, of "k + 1"] obtain i where
      i: "i < length xs" "findIndex_from (k + 1) P xs = k + 1 + int i" "P (xs ! i)" "\<forall>j < i. \<not> P (xs ! j)"
      by blast
    have "\<forall>j < Suc i. \<not> P ((x # xs) ! j)"
      using False i(4) by (auto simp: less_Suc_eq_0_disj)
    with i False show ?thesis
      by (intro exI [of _ "Suc i"]) simp
  qed
qed

text \<open>
  Claim C5.  For every segment list and time \<open>t\<close>, \<^verbatim>\<open>activeSegmentIndex\<close> returns \<open>-1\<close>
  when no segment has \<open>start \<le> t \<le> end\<close> (and when there is no transcript); otherwise it
  returns the index of the first such segment, so that no earlier segment covers \<open>t\<close>; in
  particular, when exactly one segment covers \<open>t\<close> it returns that index.
\<close>

theorem activeSegmentIndex_first_match:
  "activeSegmentIndex None t = Inr (- 1) \<and>
   (\<exists>r. activeSegmentIndex (Some \<lparr>content = Some segs, plain_text = p\<rparr>) t = Inr r \<and>
      ((\<forall>seg \<in> set segs. \<not> covers t seg) \<longrightarrow> r = - 1) \<and>
      ((\<exists>seg \<in> set segs. covers t seg) \<longrightarrow>
          0 \<le> r \<and> nat r < length segs \<and> covers t (segs ! nat r) \<and>
          (\<forall>j < nat r. \<not> covers t (segs ! j))) \<and>
      (\<forall>i < length segs.
          covers t (segs ! i) \<and> (\<forall>j < length segs. covers t (segs ! j) \<longrightarrow> j = i) \<longrightarrow> r = int i))"
proof -
  let ?P = "\<lambda>seg. t \<ge> seg_start seg \<and> t \<le> seg_end seg"
  let ?r = "findIndex ?P segs"
  have P: "?P = covers t" by (auto simp: covers_def fun_eq_iff)
  have run: "activeSegmentIndex (Some \<lparr>content = Some segs, plain_text = p\<rparr>) t = Inr ?r"
    by (simp add: activeSegmentIndex_def)
  have none: "(\<forall>seg \<in> set segs. \<not> covers t seg) \<longrightarrow> ?r = - 1"
    unfolding P findIndex_def by (simp add: findIndex_from_none)
  have some: "0 \<le> ?r \<and> nat ?r < length segs \<and> covers t (segs ! nat ?r) \<and>
          (\<forall>j < nat ?r. \<not> covers t (segs ! j))" if "\<exists>seg \<in> set segs. covers t seg"
  proof -
    from findIndex_from_first [OF that, of 0] obtain i where
      "i < length segs" "findIndex (covers t) segs = int i" "covers t (segs ! i)"
      "\<forall>j < i. \<not> covers t (segs ! j)"
      by (auto simp: findIndex_def)
    then show ?thesis unfolding P by simp
  qed
  have uniq: "?r = int i" if i: "i < length segs" "covers t (segs ! i)"
      and u: "\<forall>j < length segs. covers t (segs ! j) \<longrightarrow> j = i" for i
  proof -
    have ex: "\<exists>seg \<in> set segs. covers t seg" using i nth_mem by blast
    have s: "0 \<le> ?r" "nat ?r < length segs" "covers t (segs ! nat ?r)"
      using some [OF ex] by blast+
    from u s(2,3) have "nat ?r = i" by blast
    with s(1) show ?thesis by simp
  qed
  have a: "activeSegmentIndex None t = Inr (- 1)"
    by (simp add: activeSegmentIndex_def)
  define r where "r = ?r"
  note facts = run [folded r_def] none [folded r_def] some [folded r_def] uniq [folded r_def]
  have b: "activeSegmentIndex (Some \<lparr>content = Some segs, plain_text = p\<rparr>) t = Inr r \<and>
      ((\<forall>seg \<in> set segs. \<not> covers t seg) \<longrightarrow> r = - 1) \<and>
      ((\<exists>seg \<in> set segs. covers t seg) \<longrightarrow>
          0 \<le> r \<and> nat r < length segs \<and> covers t (segs ! nat r) \<and>
          (\<forall>j < nat r. \<not> covers t (segs ! j))) \<and>
      (\<forall>i < length segs.
          covers t (segs ! i) \<and> (\<forall>j < length segs. covers t (segs ! j) \<longrightarrow> j = i) \<longrightarrow> r = int i)"
    using facts by blast
  show ?thesis
    by (rule conjI [OF a]) (rule exI [of _ r], rule b)
qed

theorem activeSegmentIndex_first_match_witness:
  "activeSegmentIndex (Some \<lparr>content = Some five_segments, plain_text = []\<rparr>) 7000 = Inr (- 1) \<and>
   2 < length five_segments \<and> covers 2500 (five_segments ! 2) \<and>
   activeSegmentIndex (Some \<lparr>content = Some five_segments, plain_text = []\<rparr>) 2500 = Inr 2"
proof -
  have none: "\<forall>seg \<in> set five_segments. \<not> covers 7000 seg"
    by (simp add: five_segments_def utterance_def covers_def)
  have len: "2 < length five_segments"
    by (simp add: five_segments_def)
  have at: "covers 2500 (five_segments ! 2)"
    by (simp add: five_segments_def utterance_def covers_def)
  have only: "\<forall>j < length five_segments. covers 2500 (five_segments ! j) \<longrightarrow> j = 2"
    by (simp add: five_segments_def utterance_def covers_def All_less_Suc)
  from activeSegmentIndex_first_match [of 7000 five_segments "[]"] none
  have a: "activeSegmentIndex (Some \<lparr>content = Some five_segments, plain_text = []\<rparr>) 7000 = Inr (- 1)"
    by blast
  from activeSegmentIndex_first_match [of 2500 five_segments "[]"] obtain r where
    r: "activeSegmentIndex (Some \<lparr>content = Some five_segments, plain_text = []\<rparr>) 2500 = Inr r"
    and u: "\<forall>i < length five_segments.
          covers 2500 (five_segments ! i) \<and>
          (\<forall>j < length five_segments. covers 2500 (five_segments ! j) \<longrightarrow> j = i) \<longrightarrow> r = int i"
    by blast
  from u len at only have "r = int 2" by blast
  with r have b: "activeSegmentIndex (Some \<lparr>content = Some five_segments, plain_text = []\<rparr>) 2500 = Inr 2"
    by simp
  from a len at b show ?thesis by blast
qed

subsection \<open>Speaker statistics\<close>

lemma sum_add_dur: "sum_list (map snd (add_dur st k d)) = sum_list (map snd st) + d"
  by (induction st k d rule: add_dur.induct) auto

lemma add_dur_nonempty: "add_dur st k d \<noteq> []"
  by (induction st k d rule: add_dur.induct) auto

lemma accumulate_sums:
  "accumulate segs (st, T) = (st', T') \<Longrightarrow>
     T' = T + total_duration segs \<and>
     sum_list (map snd st') = sum_list (map snd st) + total_duration segs"
proof (induction segs arbitrary: st T)
  case Nil
  then show ?case by (simp add: total_duration_def)
next
  case (Cons seg segs)
  from Cons.prems
  have "accumulate segs (add_dur st (speaker_id seg) (seg_end seg - seg_start seg),
                         T + (seg_end seg - seg_start seg)) = (st', T')"
    by (simp add: Let_def)
  from Cons.IH [OF this] show ?case
    by (simp add: total_duration_def sum_add_dur)
qed

lemma accumulate_nonempty:
  "accumulate segs (st, T) = (st', T') \<Longrightarrow> st \<noteq> [] \<or> segs \<noteq> [] \<Longrightarrow> st' \<noteq> []"
proof (induction segs arbitrary: st T)
  case Nil
  then show ?case by simp
next
  case (Cons seg segs)
  from Cons.prems(1)
  have "accumulate segs (add_dur st (speaker_id seg) (seg_end seg - seg_start seg),
                         T + (seg_end seg - seg_start seg)) = (st', T')"
    by (simp add: Let_def)
  from Cons.IH [OF this] show ?case by (simp add: add_dur_nonempty)
qed

lemma mset_insort_cmp: "mset (insort_cmp c x ys) = add_mset x (mset ys)"
  by (induction ys) auto

lemma mset_sort_cmp: "mset (sort_cmp c xs) = mset xs"
  unfolding sort_cmp_def by (induction xs) (auto simp: mset_insort_cmp)

lemma mset_object_entries: "mset (object_entries al) = mset al"
  by (simp add: object_entries_def)

lemma share_sum_mset: "mset xs = mset ys \<Longrightarrow> share_sum xs = share_sum ys"
  unfolding share_sum_def
  by (metis mset_map sum_mset_sum_list)

lemma round_pct_bounds:
  assumes "0 < T"
  shows "round_pct d T = Pct ((200 * d + T) div (2 * T))"
    and "2 * T * ((200 * d + T) div (2 * T)) \<le> 200 * d + T"
    and "200 * d + T \<le> 2 * T * ((200 * d + T) div (2 * T)) + (2 * T - 1)"
proof -
  show "round_pct d T = Pct ((200 * d + T) div (2 * T))"
    using assms by (simp add: round_pct_def)
  have pos: "0 < 2 * T" using assms by simp
  have eq: "200 * d + T = 2 * T * ((200 * d + T) div (2 * T)) + (200 * d + T) mod (2 * T)"
    by simp
  have "0 \<le> (200 * d + T) mod (2 * T)" "(200 * d + T) mod (2 * T) < 2 * T"
    using pos by (rule pos_mod_sign, rule pos_mod_bound)
  with eq show "2 * T * ((200 * d + T) div (2 * T)) \<le> 200 * d + T"
    and "200 * d + T \<le> 2 * T * ((200 * d + T) div (2 * T)) + (2 * T - 1)"
    by linarith+
qed

lemma share_sum_bounds:
  assumes "0 < T"
  shows "2 * T * share_sum (map (as_stat T) al) \<le> 200 * sum_list (map snd al) + int (length al) * T \<and>
         200 * sum_list (map snd al) + int (length al) * T
           \<le> 2 * T * share_sum (map (as_stat T) al) + int (length al) * (2 * T - 1)"
proof (induction al)
  case Nil
  then show ?case by (simp add: share_sum_def)
next
  case (Cons a al)
  obtain k d where a: "a = (k, d)" by (cases a)
  define q where "q = (200 * d + T) div (2 * T)"
  have h: "share_sum (map (as_stat T) (a # al)) = q + share_sum (map (as_stat T) al)"
    using round_pct_bounds(1) [OF assms, of d] by (simp add: share_sum_def as_stat_def a q_def)
  have b1: "2 * T * q \<le> 200 * d + T" and b2: "200 * d + T \<le> 2 * T * q + (2 * T - 1)"
    using round_pct_bounds(2,3) [OF assms, of d] by (simp_all add: q_def)
  from Cons.IH b1 b2 show ?case
    unfolding h by (simp add: a algebra_simps)
qed

lemma finite_shares:
  "T \<noteq> 0 \<Longrightarrow> st \<in> set (map (as_stat T) al) \<Longrightarrow> \<exists>x. percentage st = Pct x"
  by (auto simp: as_stat_def round_pct_def)

text \<open>With a positive total duration every share is a number, and the shares sum to 100 up
  to half a point per speaker.\<close>

theorem speakerStats_shares_sum_to_100:
  assumes "0 < total_duration segs"
  shows "let r = speakerStats (Some \<lparr>content = Some segs, plain_text = p\<rparr>)
         in r \<noteq> [] \<and> (\<forall>st \<in> set r. \<exists>x. percentage st = Pct x) \<and>
            200 - int (length r) < 2 * share_sum r \<and> 2 * share_sum r \<le> 200 + int (length r)"
proof -
  obtain st T where acc: "accumulate segs ([], 0) = (st, T)" by (cases "accumulate segs ([], 0)")
  from accumulate_sums [OF acc] have T: "T = total_duration segs" and S: "sum_list (map snd st) = T"
    by simp_all
  have Tpos: "0 < T" using assms T by simp
  have "segs \<noteq> []" using assms by (auto simp: total_duration_def)
  then have ne: "st \<noteq> []"
    using accumulate_nonempty [OF acc] by simp
  define es where "es = object_entries st"
  define r where "r = sort_cmp by_share_desc (map (as_stat T) es)"
  have r: "speakerStats (Some \<lparr>content = Some segs, plain_text = p\<rparr>) = r"
    by (simp add: speakerStats_def acc r_def es_def as_stat_def)
  have mr: "mset r = mset (map (as_stat T) es)" by (simp add: r_def mset_sort_cmp)
  have mes: "mset es = mset st" by (simp add: es_def mset_object_entries)
  have len: "length r = length st"
    using mr mes by (metis length_map size_mset)
  have Ses: "sum_list (map snd es) = T"
    using mes S by (metis mset_map sum_mset_sum_list)
  have les: "length es = length st" using mes by (metis size_mset)
  have n0: "0 < length st" using ne by simp
  have fin: "\<forall>x \<in> set r. \<exists>v. percentage x = Pct v"
  proof
    fix x assume "x \<in> set r"
    then have "x \<in> set (map (as_stat T) es)" using mr by (metis set_mset_mset)
    then show "\<exists>v. percentage x = Pct v" using finite_shares Tpos by (metis less_irrefl)
  qed
  have sh: "share_sum r = share_sum (map (as_stat T) es)" by (rule share_sum_mset [OF mr])
  define P where "P = share_sum r"
  define n where "n = int (length st)"
  from share_sum_bounds [OF Tpos, of es]
  have b1: "2 * T * P \<le> 200 * T + n * T" and b2: "200 * T + n * T \<le> 2 * T * P + n * (2 * T - 1)"
    by (simp_all add: sh Ses les P_def n_def)
  have npos: "0 < n" using n0 by (simp add: n_def)
  have "T * (2 * P) \<le> T * (200 + n)" using b1 by (simp add: algebra_simps)
  then have u: "2 * P \<le> 200 + n" using Tpos by (simp add: mult_le_cancel_left_pos)
  have "T * (200 - n) < T * (2 * P)" using b2 npos by (simp add: algebra_simps)
  then have l: "200 - n < 2 * P" using Tpos by (simp add: mult_less_cancel_left_pos)
  have "r \<noteq> []" using len ne by auto
  with fin u l show ?thesis
    unfolding Let_def r by (simp add: P_def n_def len)
qed

text \<open>With a total duration of zero and at least one segment the result is not empty, and
  none of its shares is a number.\<close>

lemma speakerStats_zero_total:
  assumes "total_duration segs = 0" and "segs \<noteq> []"
  shows "speakerStats (Some \<lparr>content = Some segs, plain_text = p\<rparr>) \<noteq> [] \<and>
         (\<forall>st \<in> set (speakerStats (Some \<lparr>content = Some segs, plain_text = p\<rparr>)).
             pct_value (percentage st) = None)"
proof -
  obtain st T where acc: "accumulate segs ([], 0) = (st, T)" by (cases "accumulate segs ([], 0)")
  from accumulate_sums [OF acc] assms(1) have T: "T = 0" by simp
  have ne: "st \<noteq> []" using accumulate_nonempty [OF acc] assms(2) by simp
  define r where "r = sort_cmp by_share_desc (map (as_stat 0) (object_entries st))"
  have r: "speakerStats (Some \<lparr>content = Some segs, plain_text = p\<rparr>) = r"
    by (simp add: speakerStats_def acc r_def as_stat_def T)
  have mr: "mset r = mset (map (as_stat 0) (object_entries st))" by (simp add: r_def mset_sort_cmp)
  then have "size (mset r) = size (mset st)"
    by (simp add: mset_object_entries [THEN arg_cong, of size] del: size_mset)
  with ne have "r \<noteq> []" by auto
  moreover have "\<forall>x \<in> set r. pct_value (percentage x) = None"
  proof
    fix x assume "x \<in> set r"
    then have "x \<in> set (map (as_stat 0) (object_entries st))" using mr by (metis set_mset_mset)
    then show "pct_value (percentage x) = None" by (auto simp: as_stat_def round_pct_def)
  qed
  ultimately show ?thesis by (simp add: r)
qed

text \<open>
  Claim C1.  The claim asks for an empty result when the total duration is zero.  A
  transcript whose only segment starts and ends at 1500 ms has total duration zero, and
  \<^verbatim>\<open>speakerStats\<close> returns one entry for it, with the share \<^verbatim>\<open>NaN\<close> of the division
  \<open>0 / 0\<close>.
\<close>

theorem speakerStats_zero_total_not_empty:
  "total_duration [utterance ''Speaker 1'' 1500 1500] = 0 \<and>
   speakerStats (Some \<lparr>content = Some [utterance ''Speaker 1'' 1500 1500], plain_text = []\<rparr>)
     = [\<lparr>speaker = ''Speaker 1'', percentage = PctNaN\<rparr>]"
  by (simp add: total_duration_def utterance_def speakerStats_def object_entries_def
        is_array_index_def is_digit_def sort_cmp_def round_pct_def)

section \<open>Properties of bounded playback\<close>

lemma tick_unarmed:
  "\<not> truthy_num (stopAt s) \<Longrightarrow> pauses (tick now s) = pauses s \<and> stopAt (tick now s) = stopAt s"
  by (cases "audioRef s") (simp_all add: tick_def onTimeUpdate_def pauses_def Let_def)

lemma ticks_unarmed:
  "\<not> truthy_num (stopAt s) \<Longrightarrow>
     fst (ticks ts s) = replicate (length ts) False \<and> stopAt (snd (ticks ts s)) = stopAt s"
proof (induction ts arbitrary: s)
  case Nil
  then show ?case by simp
next
  case (Cons t ts)
  from tick_unarmed [OF Cons.prems, of t]
  have p: "pauses (tick t s) = pauses s" and st: "stopAt (tick t s) = stopAt s" by simp_all
  with Cons.prems have "\<not> truthy_num (stopAt (tick t s))" by simp
  from Cons.IH [OF this] p st show ?case
    by (simp add: Let_def split_beta)
qed

lemma tick_before:
  "audioRef s = Some el \<Longrightarrow> stopAt s = Some e \<Longrightarrow> now < e \<Longrightarrow>
     pauses (tick now s) = pauses s \<and> stopAt (tick now s) = Some e \<and> audioRef (tick now s) \<noteq> None"
  by (simp add: tick_def onTimeUpdate_def pauses_def Let_def)

lemma tick_crossing:
  "audioRef s = Some el \<Longrightarrow> stopAt s = Some e \<Longrightarrow> e \<noteq> 0 \<Longrightarrow> e \<le> now \<Longrightarrow>
     pauses (tick now s) = pauses s + 1 \<and> stopAt (tick now s) = None \<and>
     \<not> isPlaying (tick now s) \<and> (\<exists>el'. audioRef (tick now s) = Some el' \<and> el_paused el')"
  by (simp add: tick_def onTimeUpdate_def pauses_def Let_def truthy_num_def)

lemma ticks_armed:
  "audioRef s \<noteq> None \<Longrightarrow> stopAt s = Some e \<Longrightarrow> e \<noteq> 0 \<Longrightarrow>
     fst (ticks ts s) = crossing e ts \<and>
     stopAt (snd (ticks ts s)) = (if \<exists>t \<in> set ts. e \<le> t then None else Some e)"
proof (induction ts arbitrary: s)
  case Nil
  then show ?case by simp
next
  case (Cons t ts)
  from Cons.prems(1) obtain el where el: "audioRef s = Some el" by blast
  show ?case
  proof (cases "e \<le> t")
    case True
    from tick_crossing [OF el Cons.prems(2,3) True]
    have p: "pauses (tick t s) = pauses s + 1" and st: "stopAt (tick t s) = None" by simp_all
    then have "\<not> truthy_num (stopAt (tick t s))" by (simp add: truthy_num_def)
    from ticks_unarmed [OF this, of ts] p st True show ?thesis
      by (simp add: Let_def split_beta)
  next
    case False
    then have lt: "t < e" by simp
    from tick_before [OF el Cons.prems(2) lt]
    have p: "pauses (tick t s) = pauses s" and st: "stopAt (tick t s) = Some e"
      and a: "audioRef (tick t s) \<noteq> None" by simp_all
    from Cons.IH [OF a st Cons.prems(3)] p False show ?thesis
      by (simp add: Let_def split_beta)
  qed
qed

lemma crossing_nth:
  "i < length ts \<Longrightarrow> crossing e ts ! i = (e \<le> ts ! i \<and> (\<forall>j < i. ts ! j < e))"
proof (induction ts arbitrary: i)
  case Nil
  then show ?case by simp
next
  case (Cons t ts)
  show ?case
  proof (cases i)
    case 0
    then show ?thesis by simp
  next
    case (Suc k)
    with Cons.prems have k: "k < length ts" by simp
    show ?thesis
    proof (cases "e \<le> t")
      case True
      then have "\<not> (\<forall>j < i. (t # ts) ! j < e)" using Suc by (auto intro: exI [of _ 0])
      with True Suc k show ?thesis by simp
    next
      case False
      have "(\<forall>j < Suc k. (t # ts) ! j < e) = (\<forall>j < k. ts ! j < e)"
        using False by (auto simp: less_Suc_eq_0_disj)
      with False Suc Cons.IH [OF k] show ?thesis by simp
    qed
  qed
qed

lemma length_crossing: "length (crossing e ts) = length ts"
  by (induction ts) auto

lemma doSeekAndPlay_arms:
  "audioRef s = Some el \<Longrightarrow> e \<noteq> 0 \<Longrightarrow>
     stopAt (doSeekAndPlay a (Some e) s) = Some e \<and> audioRef (doSeekAndPlay a (Some e) s) \<noteq> None"
  by (simp add: doSeekAndPlay_def Let_def truthy_num_def split_beta)

lemma seekTo_arms:
  "audioRef s = Some el \<Longrightarrow> 1 \<le> el_readyState el \<Longrightarrow> e \<noteq> 0 \<Longrightarrow>
     stopAt (seekTo a (Some e) s) = Some e \<and> audioRef (seekTo a (Some e) s) \<noteq> None"
  using doSeekAndPlay_arms by (simp add: seekTo_def)

lemma seekTo_deferred_arms:
  "audioRef s = Some el \<Longrightarrow> el_readyState el = 0 \<Longrightarrow> el_loaded_listeners el = [] \<Longrightarrow> e \<noteq> 0 \<Longrightarrow>
     stopAt (loadedmetadata d (seekTo a (Some e) s)) = Some e \<and>
     audioRef (loadedmetadata d (seekTo a (Some e) s)) \<noteq> None"
  using doSeekAndPlay_arms by (simp add: seekTo_def loadedmetadata_def)

text \<open>
  Claim C4, as amended.  The view holds an element whose metadata are loaded, and
  \<^verbatim>\<open>seekTo(startMs, endMs)\<close> is called with an \<open>endMs\<close> other than zero.  Of the
  time-update ticks that follow, the first whose time is at least \<open>endMs\<close> pauses the
  element, and no other tick does: no tick before it, no tick after it.  The bound stays
  armed until that tick and is cleared from it on.  For \<^verbatim>\<open>seekTo(5000, 8000)\<close> and ticks
  at 6000, 8000 and 9000 ms: no pause, pause, no pause.
\<close>

theorem bounded_playback:
  assumes "audioRef s = Some el" and "1 \<le> el_readyState el" and "endMs \<noteq> 0"
  shows "length (fst (ticks ts (seekTo startMs (Some endMs) s))) = length ts \<and>
         (\<forall>i < length ts. fst (ticks ts (seekTo startMs (Some endMs) s)) ! i
                            = (endMs \<le> ts ! i \<and> (\<forall>j < i. ts ! j < endMs))) \<and>
         stopAt (snd (ticks ts (seekTo startMs (Some endMs) s)))
           = (if \<exists>t \<in> set ts. endMs \<le> t then None else Some endMs) \<and>
         fst (ticks [6000, 8000, 9000] (seekTo 5000 (Some 8000) s)) = [False, True, False] \<and>
         stopAt (snd (ticks [6000] (seekTo 5000 (Some 8000) s))) = Some 8000 \<and>
         stopAt (snd (ticks [6000, 8000] (seekTo 5000 (Some 8000) s))) = None"
proof -
  from seekTo_arms [OF assms]
  have "stopAt (seekTo startMs (Some endMs) s) = Some endMs"
    and "audioRef (seekTo startMs (Some endMs) s) \<noteq> None" by simp_all
  from ticks_armed [OF this(2) this(1) assms(3), of ts]
  have general: "length (fst (ticks ts (seekTo startMs (Some endMs) s))) = length ts \<and>
         (\<forall>i < length ts. fst (ticks ts (seekTo startMs (Some endMs) s)) ! i
                            = (endMs \<le> ts ! i \<and> (\<forall>j < i. ts ! j < endMs))) \<and>
         stopAt (snd (ticks ts (seekTo startMs (Some endMs) s)))
           = (if \<exists>t \<in> set ts. endMs \<le> t then None else Some endMs)"
    by (simp add: length_crossing crossing_nth)
  have ne: "(8000::int) \<noteq> 0" by simp
  from seekTo_arms [OF assms(1,2) ne]
  have st: "stopAt (seekTo 5000 (Some 8000) s) = Some 8000"
    and au: "audioRef (seekTo 5000 (Some 8000) s) \<noteq> None" by simp_all
  have ex1: "fst (ticks [6000, 8000, 9000] (seekTo 5000 (Some 8000) s)) = [False, True, False]"
    using ticks_armed [OF au st ne, of "[6000, 8000, 9000]"] by simp
  have ex2: "stopAt (snd (ticks [6000] (seekTo 5000 (Some 8000) s))) = Some 8000"
    using ticks_armed [OF au st ne, of "[6000]"] by simp
  have ex3: "stopAt (snd (ticks [6000, 8000] (seekTo 5000 (Some 8000) s))) = None"
    using ticks_armed [OF au st ne, of "[6000, 8000]"] by simp
  from general ex1 ex2 ex3 show ?thesis by blast
qed

theorem bounded_playback_witness:
  "audioRef loaded_view = Some loaded_element \<and> 1 \<le> el_readyState loaded_element \<and> (8000::int) \<noteq> 0 \<and>
   fst (ticks [6000, 8000, 9000] (seekTo 5000 (Some 8000) loaded_view)) = [False, True, False] \<and>
   stopAt (snd (ticks [6000, 8000] (seekTo 5000 (Some 8000) loaded_view))) = None"
proof -
  have a: "audioRef loaded_view = Some loaded_element"
    by (simp add: loaded_view_def)
  have b: "1 \<le> el_readyState loaded_element"
    by (simp add: loaded_element_def)
  have c: "(8000::int) \<noteq> 0" by simp
  from bounded_playback [OF a b c, of "[]" 5000] a b c show ?thesis by blast
qed

text \<open>An end offset of zero arms no bound: the tick at 0 ms, which has reached it, does
  not pause.\<close>

theorem bounded_playback_zero_end_counterexample:
  "(0::int) \<le> 0 \<and>
   fst (ticks [0, 1000] (seekTo 0 (Some 0) loaded_view)) = [False, False] \<and>
   stopAt (seekTo 0 (Some 0) loaded_view) = None \<and>
   pauses (snd (ticks [0, 1000] (seekTo 0 (Some 0) loaded_view))) = 0"
  by (simp add: loaded_view_def loaded_element_def init_view_def seekTo_def doSeekAndPlay_def
        le_duration_def truthy_num_def tick_def onTimeUpdate_def pauses_def Let_def)

section \<open>Properties of the transcript poll\<close>

lemma timers_of_subset: "set (timers_of cb s) \<subseteq> set (map fst (timers s))"
  by (auto simp: timers_of_def)




lemma timers_clearInterval [simp]:
  "timers (clearInterval i s) = filter (\<lambda>(j, cb). j \<noteq> i) (timers s)"
  "next_timer (clearInterval i s) = next_timer s"
  "pollInterval (clearInterval i s) = pollInterval s"
  "statusInterval (clearInterval i s) = statusInterval s"
  by (simp_all add: clearInterval_def)


lemma timers_of_timers_upd:
  "timers s' = timers s \<Longrightarrow> timers_of cb s' = timers_of cb s"
  by (simp add: timers_of_def)


lemma timer_inv_cong:
  "timers s' = timers s \<Longrightarrow> next_timer s' = next_timer s \<Longrightarrow> pollInterval s' = pollInterval s \<Longrightarrow>
   statusInterval s' = statusInterval s \<Longrightarrow> timer_inv s' = timer_inv s"
  by (simp add: timer_inv_def timers_of_def)

















section \<open>Properties of the speaker rename\<close>











section \<open>Properties of the minutes stream\<close>

lemma read_loop_eq:
  "read_loop chunks e s =
     (s\<lparr>streamContent := streamContent s @ concat chunks\<rparr>,
      case e of StreamDone \<Rightarrow> None | StreamFails m \<Rightarrow> Some m)"
proof (induction chunks arbitrary: s)
  case Nil
  then show ?case by (cases e) simp_all
next
  case (Cons c cs)
  then show ?case by simp
qed

lemma fetchMinutes_frame:
  "loading (fetchMinutes r s) = loading s" "isGenerating (fetchMinutes r s) = isGenerating s"
  "mv_toasts (fetchMinutes r s) = mv_toasts s" "mv_console (fetchMinutes r s) = mv_console s"
  by (cases r; simp add: fetchMinutes_def Let_def)+

lemma streaming_try_failed:
  assumes "stream_failed fr"
  shows "\<exists>e. streaming_try fr mres s = (s\<lparr>streamContent := streamContent s @ received fr\<rparr>, Some e)"
proof (cases fr)
  case (FetchFails e)
  then show ?thesis by (simp add: streaming_try_def received_def)
next
  case (Response ok statusText body)
  show ?thesis
  proof (cases ok)
    case False
    with Response show ?thesis by (simp add: streaming_try_def received_def)
  next
    case True
    show ?thesis
    proof (cases body)
      case None
      with Response True show ?thesis by (simp add: streaming_try_def received_def)
    next
      case (Some b)
      obtain chunks e where b: "b = (chunks, e)" by (cases b)
      with assms Response True Some obtain m where "e = StreamFails m"
        by (cases e) (simp_all add: stream_failed_def)
      with Response True Some b show ?thesis
        by (simp add: streaming_try_def received_def read_loop_eq)
    qed
  qed
qed

lemma streaming_try_succeeded:
  assumes "\<not> stream_failed fr"
  shows "\<exists>s1. streaming_try fr mres s = (s1, None) \<and> mv_toasts s1 = mv_toasts s \<and>
              loading s1 = loading s \<and> isGenerating s1 = isGenerating s"
proof -
  from assms obtain statusText chunks where fr: "fr = Response True statusText (Some (chunks, StreamDone))"
    by (auto simp: stream_failed_def split: fetch_result.splits option.splits read_end.splits prod.splits)
  show ?thesis
    by (simp add: fr streaming_try_def read_loop_eq fetchMinutes_frame)
qed

text \<open>
  Claim C3, as amended.  Every run of \<^verbatim>\<open>startStreaming\<close> ends with \<^verbatim>\<open>loading\<close> and
  \<^verbatim>\<open>isGenerating\<close> cleared, on success and on every failure (a rejected request, a
  response that is not \<^verbatim>\<open>ok\<close>, a response without a body, a read that throws).  A
  failed run surfaces one notification, \<open>Generation failed: \<close> followed by the error, and
  leaves in \<^verbatim>\<open>streamContent\<close> exactly the text received before the failure: nothing is
  appended to it.  A successful run surfaces no notification.
\<close>

theorem startStreaming_cleanup:
  "\<not> loading (startStreaming fr mres s) \<and> \<not> isGenerating (startStreaming fr mres s) \<and>
   (stream_failed fr \<longrightarrow>
      (\<exists>e. mv_toasts (startStreaming fr mres s) = mv_toasts s @ [Failure (''Generation failed: '' @ e)]) \<and>
      streamContent (startStreaming fr mres s) = received fr) \<and>
   (\<not> stream_failed fr \<longrightarrow> mv_toasts (startStreaming fr mres s) = mv_toasts s)"
proof -
  let ?s0 = "s\<lparr>loading := True, isGenerating := True, streamContent := []\<rparr>"
  have flags: "\<not> loading (startStreaming fr mres s) \<and> \<not> isGenerating (startStreaming fr mres s)"
    by (simp add: startStreaming_def Let_def split_beta)
  have failed: "(\<exists>e. mv_toasts (startStreaming fr mres s) = mv_toasts s @ [Failure (''Generation failed: '' @ e)]) \<and>
      streamContent (startStreaming fr mres s) = received fr" if "stream_failed fr"
  proof -
    from streaming_try_failed [OF that, of mres ?s0] obtain e where
      "streaming_try fr mres ?s0 = (?s0\<lparr>streamContent := streamContent ?s0 @ received fr\<rparr>, Some e)"
      by blast
    then show ?thesis by (simp add: startStreaming_def Let_def)
  qed
  have ok: "mv_toasts (startStreaming fr mres s) = mv_toasts s" if "\<not> stream_failed fr"
  proof -
    from streaming_try_succeeded [OF that, of mres ?s0] obtain s1 where
      "streaming_try fr mres ?s0 = (s1, None)" "mv_toasts s1 = mv_toasts ?s0"
      by blast
    then show ?thesis by (simp add: startStreaming_def Let_def)
  qed
  from flags failed ok show ?thesis by blast
qed

theorem startStreaming_cleanup_witness:
  "stream_failed broken_stream \<and>
   \<not> loading (startStreaming broken_stream NoResponse idle_minutes_view) \<and>
   \<not> isGenerating (startStreaming broken_stream NoResponse idle_minutes_view) \<and>
   streamContent (startStreaming broken_stream NoResponse idle_minutes_view) = ''# Minutes''"
proof -
  have f: "stream_failed broken_stream"
    by (simp add: stream_failed_def broken_stream_def)
  have r: "received broken_stream = ''# Minutes''"
    by (simp add: received_def broken_stream_def)
  from startStreaming_cleanup [of broken_stream NoResponse idle_minutes_view] f r
  show ?thesis by simp
qed

text \<open>After a read that throws, and after a response that is not \<^verbatim>\<open>ok\<close>, the stream
  content holds the text received and no error indicator.\<close>

theorem startStreaming_no_error_indicator_counterexample:
  "stream_failed broken_stream \<and>
   streamContent (startStreaming broken_stream NoResponse idle_minutes_view) = ''# Minu'' @ ''tes'' \<and>
   mv_toasts (startStreaming broken_stream NoResponse idle_minutes_view)
     = [Failure ''Generation failed: TypeError: network error''] \<and>
   stream_failed (Response False ''Internal Server Error'' None) \<and>
   streamContent (startStreaming (Response False ''Internal Server Error'' None) NoResponse idle_minutes_view) = []"
  by (simp add: stream_failed_def broken_stream_def startStreaming_def streaming_try_def
        idle_minutes_view_def Let_def)

section \<open>Properties of the event streams\<close>

lemma split_blank_nonempty: "split_blank s \<noteq> []"
  by (cases s rule: split_blank.cases) (auto split: list.splits)

lemma split_blank_single: "split_blank s = [p] \<Longrightarrow> p = s"
proof (induction s arbitrary: p rule: split_blank.induct)
  case 1
  then show ?case by simp
next
  case (2 c)
  then show ?case by simp
next
  case (3 x y cs)
  show ?case
  proof (cases "x = nl \<and> y = nl")
    case True
    with 3(3) show ?thesis by (simp add: split_blank_nonempty)
  next
    case False
    obtain q qs where S: "split_blank (y # cs) = q # qs"
      using split_blank_nonempty [of "y # cs"] by (cases "split_blank (y # cs)") auto
    from 3(3) False S have "qs = []" and p: "p = x # q" by auto
    with S 3(2) False have "q = y # cs" by blast
    with p show ?thesis by simp
  qed
qed

lemma split_blank_step:
  "\<not> (x = nl \<and> y = nl) \<Longrightarrow> split_blank (y # cs) = q # qs \<Longrightarrow> split_blank (x # y # cs) = (x # q) # qs"
  by auto

lemma split_blank_append:
  "split_blank (a @ b) = butlast (split_blank a) @ split_blank (last (split_blank a) @ b)"
proof (induction a rule: split_blank.induct)
  case 1
  then show ?case by simp
next
  case (2 c)
  then show ?case by simp
next
  case (3 x y cs)
  show ?case
  proof (cases "x = nl \<and> y = nl")
    case True
    with 3(1) have "split_blank (cs @ b) = butlast (split_blank cs) @ split_blank (last (split_blank cs) @ b)"
      by blast
    with True show ?thesis by (simp add: split_blank_nonempty)
  next
    case False
    obtain p ps where S: "split_blank (y # cs) = p # ps"
      using split_blank_nonempty [of "y # cs"] by (cases "split_blank (y # cs)") auto
    from 3(2) False have IH: "split_blank ((y # cs) @ b) =
        butlast (split_blank (y # cs)) @ split_blank (last (split_blank (y # cs)) @ b)"
      by blast
    note e = split_blank_step [OF False S]
    show ?thesis
    proof (cases ps)
      case Nil
      with S have "p = y # cs" using split_blank_single by blast
      with e Nil show ?thesis by (simp del: split_blank.simps)
    next
      case (Cons q qs)
      from IH S Cons
      have "split_blank (y # (cs @ b)) = p # (butlast (q # qs) @ split_blank (last (q # qs) @ b))"
        by (simp del: split_blank.simps)
      from split_blank_step [OF False this]
      have "split_blank ((x # y # cs) @ b) = (x # p) # (butlast (q # qs) @ split_blank (last (q # qs) @ b))"
        by (simp del: split_blank.simps)
      with e Cons show ?thesis by (simp del: split_blank.simps)
    qed
  qed
qed

lemma kb_event_buffer:
  "kb_event parse ev d (t\<lparr>buffer := b\<rparr>) = (kb_event parse ev d t)\<lparr>buffer := b\<rparr>"
  by (simp add: kb_event_def kb_log_def Let_def split: option.splits sum.splits)

lemma kb_block_buffer:
  "kb_block parse l (t\<lparr>buffer := b\<rparr>) = (kb_block parse l t)\<lparr>buffer := b\<rparr>"
  by (simp add: kb_block_def Let_def kb_event_buffer split: list.splits)

lemma fold_kb_block_buffer:
  "fold (kb_block parse) ls (t\<lparr>buffer := b\<rparr>) = (fold (kb_block parse) ls t)\<lparr>buffer := b\<rparr>"
  by (induction ls arbitrary: t) (simp_all add: kb_block_buffer)

lemma kb_chunk_append:
  "kb_chunk parse c2 (kb_chunk parse c1 s) = kb_chunk parse (c1 @ c2) s"
proof -
  define P1 where "P1 = split_blank (buffer s @ c1)"
  define P2 where "P2 = split_blank (last P1 @ c2)"
  have ne: "P1 \<noteq> []" "P2 \<noteq> []" by (simp_all add: P1_def P2_def split_blank_nonempty)
  have whole: "split_blank (buffer s @ c1 @ c2) = butlast P1 @ P2"
    using split_blank_append [of "buffer s @ c1" c2] by (simp add: P1_def P2_def)
  have step1: "kb_chunk parse c1 s = (fold (kb_block parse) (butlast P1) s)\<lparr>buffer := last P1\<rparr>"
    by (simp add: kb_chunk_def Let_def P1_def fold_kb_block_buffer)
  have "kb_chunk parse c2 (kb_chunk parse c1 s)
          = (fold (kb_block parse) (butlast P2) (fold (kb_block parse) (butlast P1) s))\<lparr>buffer := last P2\<rparr>"
    unfolding step1 by (simp add: kb_chunk_def Let_def P2_def fold_kb_block_buffer)
  also have "\<dots> = (fold (kb_block parse) (butlast P1 @ butlast P2) s)\<lparr>buffer := last P2\<rparr>"
    by simp
  also have "\<dots> = kb_chunk parse (c1 @ c2) s"
    using ne by (simp add: kb_chunk_def Let_def whole butlast_append fold_kb_block_buffer)
  finally show ?thesis .
qed

lemma kb_consume_split:
  "kb_consume parse (c1 # c2 # cs) s = kb_consume parse ((c1 @ c2) # cs) s"
  by (simp add: kb_consume_def kb_chunk_append)

lemma split_nl_line: "nl \<notin> set s \<Longrightarrow> split_nl s = [s]"
  by (induction s) auto

lemma kb_split_status:
  assumes \<open>parse ''{"message":"hello"}'' = Some (JObj [(''message'', JStr ''hello'')])\<close>
  shows "kb_consume parse [status_head, answer_tail] new_kb
           = new_kb\<lparr>researchStatusMessage := Some (JStr ''hello'')\<rparr>"
proof -
  have sp: "split_blank (status_head @ answer_tail) = [butlast (butlast (status_head @ answer_tail)), []]"
    by (simp add: status_head_def answer_tail_def nl_def)
  have blk: "kb_block parse (butlast (butlast (status_head @ answer_tail))) t
               = t\<lparr>researchStatusMessage := Some (JStr ''hello'')\<rparr>" for t
    using assms
    by (simp add: status_head_def answer_tail_def nl_def kb_block_def Let_def trim_def is_space_def
          kb_event_def get_prop_def)
  have "kb_consume parse [status_head, answer_tail] new_kb = kb_chunk parse (status_head @ answer_tail) new_kb"
    using kb_consume_split [of parse status_head answer_tail "[]" new_kb]
    by (simp add: kb_consume_def)
  also have "\<dots> = new_kb\<lparr>researchStatusMessage := Some (JStr ''hello'')\<rparr>"
    by (simp add: kb_chunk_def Let_def new_kb_def sp blk)
  finally show ?thesis .
qed

lemma chat_whole_event:
  assumes \<open>parse ''{"content":"hello"}'' = Some (JObj [(''content'', JStr ''hello'')])\<close>
  shows "chat_consume parse [answer_head @ answer_tail] c = append_content ''hello'' c"
proof -
  have sp: "split_blank (answer_head @ answer_tail) = [butlast (butlast (answer_head @ answer_tail)), []]"
    by (simp add: answer_head_def answer_tail_def nl_def)
  have blk: "chat_block parse (butlast (butlast (answer_head @ answer_tail))) t = append_content ''hello'' t" for t
    using assms
    by (simp add: answer_head_def answer_tail_def nl_def chat_block_def Let_def trim_def is_space_def
          chat_event_def get_prop_def text_of_def)
  have b3: "chat_block parse [] t = t" for t
    by (simp add: chat_block_def)
  show ?thesis
    by (simp add: chat_consume_def chat_chunk_def sp blk b3)
qed

text \<open>
  Claim C2.  The claim asks that an event cut in two by a chunk boundary is still
  delivered once, with its whole payload.  The loop of \<^verbatim>\<open>confirmGenerate\<close> does that
  (\<open>kb_chunk_append\<close>, \<open>kb_split_status\<close>).  The loop of \<^verbatim>\<open>sendChatMessage\<close>, the one
  that handles \<^verbatim>\<open>answer\<close> events, keeps no buffer.  Fed the two chunks of the example, with
  any \<^verbatim>\<open>JSON.parse\<close> that rejects the truncated payload, it logs a parse error for the
  first chunk, finds no event in the second, and leaves the content of the message as it
  was: no \<^verbatim>\<open>answer\<close> event is delivered.
\<close>

theorem chat_split_event_lost:
  assumes \<open>parse ''{"content":"hel'' = None\<close>
  shows "chat_consume parse [answer_head, answer_tail] c = chat_log c \<and>
         msg_content (assistantMsg (chat_consume parse [answer_head, answer_tail] c))
           = msg_content (assistantMsg c)"
proof -
  have s1: "split_blank answer_head = [answer_head]"
    by (simp add: answer_head_def nl_def)
  have s2: "split_blank answer_tail = [butlast (butlast answer_tail), []]"
    by (simp add: answer_tail_def nl_def)
  have b1: "chat_block parse answer_head t = chat_log t" for t
    using assms
    by (simp add: answer_head_def nl_def chat_block_def Let_def chat_event_def)
  have b2: "chat_block parse (butlast (butlast answer_tail)) t = t" for t
    by (simp add: answer_tail_def chat_block_def)
  have b3: "chat_block parse [] t = t" for t
    by (simp add: chat_block_def)
  have "chat_consume parse [answer_head, answer_tail] c = chat_log c"
    by (simp add: chat_consume_def chat_chunk_def s1 s2 b1 b2 b3)
  then show ?thesis
    by (simp add: chat_log_def)
qed

theorem chat_split_event_lost_witness:
  \<open>example_parse ''{"content":"hel'' = None \<and>
   msg_content (assistantMsg (chat_consume example_parse [answer_head, answer_tail] new_chat)) = [] \<and>
   chat_console (chat_consume example_parse [answer_head, answer_tail] new_chat) = [''Parse error''] \<and>
   msg_content (assistantMsg (chat_consume example_parse [answer_head @ answer_tail] new_chat)) = ''hello''\<close>
proof -
  have h: \<open>example_parse ''{"content":"hel'' = None\<close>
    by (simp add: example_parse_def)
  have w: \<open>example_parse ''{"content":"hello"}'' = Some (JObj [(''content'', JStr ''hello'')])\<close>
    by (simp add: example_parse_def)
  from chat_split_event_lost [where parse = example_parse and c = new_chat, OF h]
       chat_whole_event [where parse = example_parse and c = new_chat, OF w] h
  show ?thesis
    by (simp add: chat_log_def new_chat_def append_content_def)
qed

section \<open>Properties of the citation transformer\<close>

lemma startsWith_Cons: "startsWith s (p # ps) = (case s of [] \<Rightarrow> False | c # cs \<Rightarrow> c = p \<and> startsWith cs ps)"
  by (cases s) simp_all

lemma startsWith_one: "startsWith s [p] = (\<exists>t. s = p # t)"
  by (cases s) auto

lemma quiet_fixed: "quiet s \<Longrightarrow> transformCitations pid s = s"
  by (induction s) (auto simp: startsWith_one)

lemma find_close_prefix: "find_close s = Some (n, r) \<Longrightarrow> s = n @ '']]'' @ r"
  by (induction s arbitrary: n) (auto simp: startsWith_one split: if_splits option.splits)

lemma find_close_no_rr: "find_close s = Some (n, r) \<Longrightarrow> no_rr n"
proof (induction s arbitrary: n)
  case Nil
  then show ?case by simp
next
  case (Cons c cs)
  show ?case
  proof (cases "c = CHR '']'' \<and> startsWith cs '']''")
    case True
    with Cons.prems show ?thesis by auto
  next
    case False
    with Cons.prems obtain m where m: "find_close cs = Some (m, r)" and n: "n = c # m"
      by (auto split: if_splits option.splits)
    from Cons.IH [OF m] have nm: "no_rr m" .
    show ?thesis
    proof (cases m)
      case Nil
      with n show ?thesis by simp
    next
      case (Cons d m')
      with find_close_prefix [OF m] have "startsWith cs [d]" by (simp add: startsWith_one)
      with False have "\<not> (c = CHR '']'' \<and> d = CHR '']'')" by auto
      with nm n Cons show ?thesis by simp
    qed
  qed
qed

lemma no_rr_tl: "no_rr l \<Longrightarrow> no_rr (tl l)"
  by (cases l rule: no_rr.cases) simp_all

lemma find_close_line: "no_rr l \<Longrightarrow> find_close (l @ nl # t) = None"
proof (induction l)
  case Nil
  then show ?case by (simp add: lt_at_def nl_def)
next
  case (Cons x xs)
  then have "no_rr xs" using no_rr_tl by fastforce
  with Cons.IH have IH: "find_close (xs @ nl # t) = None" by simp
  have "\<not> (x = CHR '']'' \<and> startsWith (xs @ nl # t) '']'')"
  proof (cases xs)
    case Nil
    then show ?thesis by (simp add: nl_def)
  next
    case (Cons y ys)
    with Cons.prems \<open>no_rr (x # xs)\<close> show ?thesis by auto
  qed
  with IH show ?case by simp
qed

lemma quiet_append_line: "no_rr l \<Longrightarrow> quiet t \<Longrightarrow> quiet (l @ nl # t)"
proof (induction l)
  case Nil
  then show ?case by (simp add: nl_def)
next
  case (Cons x xs)
  then have nxs: "no_rr xs" using no_rr_tl by fastforce
  with Cons have q: "quiet (xs @ nl # t)" by simp
  have "find_close (tl (xs @ nl # t)) = None" if "startsWith (xs @ nl # t) ''[''"
  proof (cases xs)
    case Nil
    with that show ?thesis by (simp add: nl_def)
  next
    case (Cons y ys)
    with nxs have "no_rr ys" using no_rr_tl by fastforce
    with Cons show ?thesis by (simp add: find_close_line)
  qed
  with q show ?case by simp
qed

lemma quiet_append_plain: "CHR ''['' \<notin> set l \<Longrightarrow> quiet t \<Longrightarrow> quiet (l @ t)"
  by (induction l) auto

lemma quiet_join_line:
  "no_rr l \<Longrightarrow> quiet (join_nl (m # ls) @ t) \<Longrightarrow> quiet (join_nl (l # m # ls) @ t)"
  by (simp add: quiet_append_line)

lemma quiet_join_last:
  "CHR ''['' \<notin> set l \<Longrightarrow> quiet t \<Longrightarrow> quiet (join_nl [l] @ t)"
  by (simp add: quiet_append_plain)

lemma no_rr_append:
  "no_rr (a @ b) = (no_rr a \<and> no_rr b \<and> \<not> (a \<noteq> [] \<and> b \<noteq> [] \<and> last a = CHR '']'' \<and> hd b = CHR '']''))"
proof (induction a rule: no_rr.induct)
  case 1
  then show ?case by simp
next
  case (2 c)
  then show ?case by (cases b) auto
next
  case (3 x y cs)
  then show ?case by auto
qed

lemma no_rr_digits: "list_all is_digit ds \<Longrightarrow> no_rr ds"
  by (induction ds rule: no_rr.induct) (auto simp: is_digit_def)


lemma no_rr_Cons_other: "c \<noteq> CHR '']'' \<Longrightarrow> no_rr (c # xs) = no_rr xs"
  by (cases xs) simp_all

lemma no_rr_middle: "no_rr (a @ b @ c) \<Longrightarrow> no_rr b"
  by (simp add: no_rr_append)

lemma match_name_id_parts:
  assumes "match_name_id pre name = Some (g1, g2)"
  shows "list_all is_digit g2 \<and> (\<exists>a b. name = a @ g1 @ b)"
proof -
  define r where "r = rev (drop (length pre) name)"
  define tw where "tw = takeWhile (\<lambda>c. c \<noteq> CHR ''_'') r"
  from assms obtain u g where dw: "dropWhile (\<lambda>c. c \<noteq> CHR ''_'') r = u # g"
    and g1: "g1 = rev g" and g2: "g2 = rev tw" and dig: "list_all is_digit (rev tw)"
    by (auto simp: match_name_id_def Let_def r_def tw_def split: if_splits list.splits)
  have "r = tw @ u # g"
    using takeWhile_dropWhile_id [of "\<lambda>c. c \<noteq> CHR ''_''" r] by (simp add: tw_def dw)
  then have "rev r = rev g @ u # rev tw" by simp
  then have "drop (length pre) name = g1 @ u # rev tw" by (simp add: r_def g1)
  then have "name = take (length pre) name @ g1 @ (u # rev tw)"
    by (metis append_take_drop_id)
  with dig g2 show ?thesis by blast
qed

lemma match_name_id_no_rr:
  "match_name_id pre name = Some (g1, g2) \<Longrightarrow> no_rr name \<Longrightarrow> no_rr g1 \<and> no_rr g2"
  using match_name_id_parts no_rr_middle no_rr_digits by metis

lemma quiet_badge:
  assumes "no_rr name" and "no_rr ic" and "quiet t"
  shows "quiet (badge_html ic name @ t)"
  unfolding badge_html_def
  by (intro quiet_join_line quiet_join_last assms)
     (simp_all add: no_rr_append no_rr_Cons_other assms)

lemma quiet_link:
  assumes "no_rr (href c)" and "no_rr (ctype c)" and "no_rr (ident c)" and "no_rr (sect c)"
    and "no_rr (displayName c)" and "no_rr (icon c)" and "quiet t"
  shows "quiet (link_html c @ t)"
  unfolding link_html_def Let_def
  by (intro quiet_join_line quiet_join_last assms)
     (simp_all add: no_rr_append no_rr_Cons_other assms)

lemma no_rr_kb: "no_rr (kb_section key)" "no_rr (kb_title (kb_section key))"
  by (simp_all add: kb_section_def kb_title_def)

lemma quiet_replacement:
  assumes pid: "no_rr pid" and name: "no_rr name" and t: "quiet t"
  shows "quiet (replacement pid name @ t)"
proof -
  define c where "c = parse_source pid name"
  show ?thesis
  proof (cases "isCitation c")
    case False
    have "no_rr (icon c)"
      by (simp add: c_def parse_source_def Let_def split: option.splits)
    with False name t show ?thesis
      by (simp add: replacement_def c_def [symmetric] quiet_badge)
  next
    case True
    have fields: "no_rr (href c) \<and> no_rr (ctype c) \<and> no_rr (ident c) \<and> no_rr (sect c) \<and>
                  no_rr (displayName c) \<and> no_rr (icon c)"
    proof (cases "str_includes (toLowerCase name) ''minutes''")
      case True
      then show ?thesis
        using match_name_id_no_rr [OF _ name, of "''minutes_''"] name
        by (auto simp: c_def parse_source_def Let_def no_rr_append no_rr_Cons_other split: option.splits)
    next
      case nm: False
      show ?thesis
      proof (cases "str_includes (toLowerCase name) ''transcript''")
        case True
        then show ?thesis
          using nm match_name_id_no_rr [OF _ name, of "''transcript_''"] name
          by (auto simp: c_def parse_source_def Let_def no_rr_append no_rr_Cons_other split: option.splits)
      next
        case nt: False
        show ?thesis
        proof (cases "match_kb name")
          case (Some kd)
          then show ?thesis
            using nm nt pid
            by (cases kd) (simp add: c_def parse_source_def Let_def no_rr_append no_rr_Cons_other no_rr_kb)
        next
          case None
          then show ?thesis
            using nm nt pid match_name_id_no_rr [OF _ name, of "''document_''"] name
            by (auto simp: c_def parse_source_def Let_def no_rr_append no_rr_Cons_other split: option.splits)
        qed
      qed
    qed
    with True t show ?thesis
      by (simp add: replacement_def c_def [symmetric] quiet_link)
  qed
qed

lemma replacement_head: "\<exists>r. replacement pid name = CHR ''<'' # r"
  by (simp add: replacement_def link_html_def badge_html_def Let_def)

lemma tc_other: "c \<noteq> CHR ''['' \<Longrightarrow> transformCitations pid (c # cs) = c # transformCitations pid cs"
  by simp

lemma tc_head:
  assumes "startsWith (transformCitations pid s) [x]" and "x \<noteq> CHR ''<''"
  shows "\<exists>s'. s = x # s' \<and> transformCitations pid s = x # transformCitations pid s'"
proof (cases s)
  case Nil
  with assms show ?thesis by simp
next
  case (Cons c cs)
  show ?thesis
  proof (cases "c = CHR ''['' \<and> startsWith cs ''[''")
    case False
    with Cons assms show ?thesis by (auto simp: startsWith_one)
  next
    case True
    show ?thesis
    proof (cases "find_close (tl cs)")
      case None
      with True Cons assms show ?thesis by (auto simp: startsWith_one)
    next
      case (Some nr)
      obtain n r where nr: "nr = (n, r)" by (cases nr)
      obtain q where "replacement pid n = CHR ''<'' # q" using replacement_head by blast
      with True Cons Some nr assms show ?thesis by (simp add: startsWith_one)
    qed
  qed
qed

lemma startsWith_two: "startsWith s [p, q] = (\<exists>t. s = p # q # t)"
  by (cases s rule: split_blank.cases) auto

lemma startsWith_tc_two:
  assumes "startsWith cs [q, r]" and "q \<noteq> CHR ''[''" and "r \<noteq> CHR ''[''"
  shows "startsWith (transformCitations pid cs) [q, r]"
proof -
  from assms(1) obtain t where "cs = q # r # t" by (auto simp: startsWith_two)
  with assms(2,3) show ?thesis by simp
qed

lemma lt_at_tc: "lt_at (c # cs) \<Longrightarrow> lt_at (c # transformCitations pid cs)"
proof -
  assume "lt_at (c # cs)"
  then consider "c = CHR 0x0A" | "c = CHR 0x0D"
    | "c = CHR 0xE2" "startsWith cs [CHR 0x80, CHR 0xA8]"
    | "c = CHR 0xE2" "startsWith cs [CHR 0x80, CHR 0xA9]"
    by (auto simp: lt_at_def)
  then show ?thesis
  proof cases
    case 1
    then show ?thesis by (simp add: lt_at_def)
  next
    case 2
    then show ?thesis by (simp add: lt_at_def)
  next
    case 3
    from startsWith_tc_two [OF 3(2), of pid] 3(1) show ?thesis by (simp add: lt_at_def)
  next
    case 4
    from startsWith_tc_two [OF 4(2), of pid] 4(1) show ?thesis by (simp add: lt_at_def)
  qed
qed

lemma find_close_skip:
  "find_close (c # cs) = None \<Longrightarrow> \<not> lt_at (c # cs) \<Longrightarrow> find_close cs = None"
  by (auto split: if_splits option.splits)

lemma find_close_tc:
  "find_close s = None \<Longrightarrow> find_close (transformCitations pid s) = None"
proof (induction pid s rule: transformCitations.induct)
  case (1 pid)
  then show ?case by simp
next
  case (2 pid c cs)
  have not_rr: "\<not> (c = CHR '']'' \<and> startsWith cs '']'')"
    using "2.prems" by auto
  show ?case
  proof (cases "c = CHR ''['' \<and> startsWith cs ''[''")
    case True
    then obtain cs' where cs: "cs = CHR ''['' # cs'" by (auto simp: startsWith_one)
    have "\<not> lt_at (c # cs)" "\<not> lt_at cs" using True cs by (simp_all add: lt_at_def)
    with "2.prems" have n1: "find_close cs = None" using find_close_skip by blast
    with \<open>\<not> lt_at cs\<close> cs have n2: "find_close cs' = None" using find_close_skip by blast
    with True cs have tc: "transformCitations pid (c # cs) = c # transformCitations pid cs"
      by simp
    from n2 cs have "find_close (tl cs) = None" by simp
    from "2.IH"(1) [OF True this n1] have IH: "find_close (transformCitations pid cs) = None" .
    have "\<not> (c = CHR '']'' \<and> startsWith (transformCitations pid cs) '']'')" using True by simp
    with IH show ?thesis unfolding tc by simp
  next
    case False
    then have tc: "transformCitations pid (c # cs) = c # transformCitations pid cs"
      by auto
    show ?thesis
    proof (cases "lt_at (c # cs)")
      case True
      then have "lt_at (c # transformCitations pid cs)" by (rule lt_at_tc)
      moreover from True have "c \<noteq> CHR '']''" by (auto simp: lt_at_def)
      ultimately show ?thesis unfolding tc by simp
    next
      case nlt: False
      with "2.prems" have "find_close cs = None" using find_close_skip by blast
      with "2.IH"(3) [OF False] have IH: "find_close (transformCitations pid cs) = None" by simp
      have "\<not> (c = CHR '']'' \<and> startsWith (transformCitations pid cs) '']'')"
      proof
        assume a: "c = CHR '']'' \<and> startsWith (transformCitations pid cs) '']''"
        then obtain s' where "cs = CHR '']'' # s'" using tc_head [of pid cs "CHR '']''"] by auto
        with a not_rr show False by simp
      qed
      with IH show ?thesis unfolding tc by simp
    qed
  qed
qed

lemma quiet_tc:
  assumes pid: "no_rr pid"
  shows "quiet (transformCitations pid s)"
  using pid
proof (induction pid s rule: transformCitations.induct)
  case (1 pid)
  then show ?case by simp
next
  case (2 pid c cs)
  show ?case
  proof (cases "c = CHR ''['' \<and> startsWith cs ''[''")
    case True
    show ?thesis
    proof (cases "find_close (tl cs)")
      case (Some nr)
      obtain n r where nr: "nr = (n, r)" by (cases nr)
      from "2.IH"(2) [OF True Some nr [symmetric] "2.prems"] have q: "quiet (transformCitations pid r)" .
      from Some nr have "no_rr n" using find_close_no_rr by blast
      from quiet_replacement [OF "2.prems" this q] True Some nr show ?thesis by simp
    next
      case None
      from "2.IH"(1) [OF True None "2.prems"] have q: "quiet (transformCitations pid cs)" .
      from True obtain cs' where cs: "cs = CHR ''['' # cs'" by (auto simp: startsWith_one)
      from None cs have n: "find_close cs' = None" by simp
      have "find_close (tl (transformCitations pid cs)) = None"
        if "startsWith (transformCitations pid cs) ''[''"
      proof -
        from tc_head [OF that] cs have "transformCitations pid cs = CHR ''['' # transformCitations pid cs'"
          by auto
        with find_close_tc [OF n, of pid] show ?thesis by simp
      qed
      with q True None show ?thesis by simp
    qed
  next
    case False
    from "2.IH"(3) [OF False "2.prems"] have q: "quiet (transformCitations pid cs)" .
    have "find_close (tl (transformCitations pid cs)) = None"
      if h: "c = CHR ''[''" "startsWith (transformCitations pid cs) ''[''"
    proof -
      from tc_head [OF h(2)] obtain s' where "cs = CHR ''['' # s'" by auto
      with h(1) False show ?thesis by simp
    qed
    with q False show ?thesis by auto
  qed
qed

lemma transformCitations_token:
  "find_close s = Some (name, rest) \<Longrightarrow>
     transformCitations pid (''[['' @ s) = replacement pid name @ transformCitations pid rest"
  by simp

lemma startsWith_includes: "startsWith s p \<Longrightarrow> str_includes s p"
  by (cases s) (auto elim: startsWith.elims)

lemma replacement_minutes:
  assumes "match_name_id ''minutes_'' name = Some (g1, g2)"
  shows "replacement pid name =
           link_html \<lparr>icon = ''event_note'', ctype = ''minutes'', ident = g2, sect = [],
                      displayName = g1, isCitation = True, href = ''/recording/'' @ g2 @ ''/minutes''\<rparr>"
proof -
  from assms have "startsWith (toLowerCase name) ''minutes_''"
    by (auto simp: match_name_id_def split: if_splits)
  then have "startsWith (toLowerCase name) ''minutes''"
    by (auto simp: startsWith_Cons split: list.splits)
  then have "str_includes (toLowerCase name) ''minutes''" by (rule startsWith_includes)
  with assms show ?thesis by (simp add: replacement_def parse_source_def Let_def)
qed

lemma replacement_unrecognized:
  assumes "match_name_id ''minutes_'' name = None" and "match_name_id ''transcript_'' name = None"
    and "match_name_id ''document_'' name = None" and "match_kb name = None"
  shows "\<exists>ic. replacement pid name = badge_html ic name"
  using assms by (auto simp: replacement_def parse_source_def Let_def)

lemma transformCitations_minutes_example:
  "transformCitations pid ''See [[Minutes_Standup_42]] for details'' =
     ''See '' @
     link_html \<lparr>icon = ''event_note'', ctype = ''minutes'', ident = ''42'', sect = [],
                displayName = ''Standup'', isCitation = True, href = ''/recording/42/minutes''\<rparr> @
     '' for details''"
proof -
  have m: "match_name_id ''minutes_'' ''Minutes_Standup_42'' = Some (''Standup'', ''42'')"
    by (simp add: match_name_id_def toLowerCase_def lower_char_def is_digit_def Let_def)
  have f: "find_close ''Minutes_Standup_42]] for details'' = Some (''Minutes_Standup_42'', '' for details'')"
    by (simp add: lt_at_def)
  have t: "transformCitations pid '' for details'' = '' for details''"
    by simp
  have "transformCitations pid ''See [[Minutes_Standup_42]] for details''
          = ''See '' @ transformCitations pid (''[['' @ ''Minutes_Standup_42]] for details'')"
    by simp
  also have "\<dots> = ''See '' @ replacement pid ''Minutes_Standup_42'' @ '' for details''"
    unfolding transformCitations_token [OF f] t ..
  finally show ?thesis
    unfolding replacement_minutes [OF m] by simp
qed

lemma transformCitations_unknown_example:
  "transformCitations pid ''See [[Unknown_Format]]'' = ''See '' @ badge_html ''description'' ''Unknown_Format''"
proof -
  have r: "replacement pid ''Unknown_Format'' = badge_html ''description'' ''Unknown_Format''"
    by (simp add: replacement_def parse_source_def Let_def toLowerCase_def lower_char_def
          match_kb_def)
  have f: "find_close ''Unknown_Format]]'' = Some (''Unknown_Format'', [])"
    by (simp add: lt_at_def)
  have "transformCitations pid ''See [[Unknown_Format]]''
          = ''See '' @ transformCitations pid (''[['' @ ''Unknown_Format]]'')"
    by simp
  also have "\<dots> = ''See '' @ replacement pid ''Unknown_Format''"
    unfolding transformCitations_token [OF f] by simp
  finally show ?thesis unfolding r .
qed

text \<open>
  Claim C8.  The claim asks that every token whose identifier matches one of the four
  naming patterns becomes an interactive reference.  The identifier
  \<open>Document_minutes_3\<close> matches the document pattern (name \<open>minutes\<close>, id \<open>3\<close>), but the
  transformer tests \<^verbatim>\<open>includes('minutes')\<close> first, takes the minutes branch, fails the
  minutes pattern there and renders the non-interactive badge, with the minutes icon.  (The
  two examples of the claim hold: \<open>transformCitations_minutes_example\<close>,
  \<open>transformCitations_unknown_example\<close>.)
\<close>

theorem transformCitations_document_minutes_badge:
  "match_name_id ''document_'' ''Document_minutes_3'' = Some (''minutes'', ''3'') \<and>
   transformCitations pid ''[[Document_minutes_3]]'' = badge_html ''event_note'' ''Document_minutes_3''"
proof -
  have m: "match_name_id ''document_'' ''Document_minutes_3'' = Some (''minutes'', ''3'')"
    by (simp add: match_name_id_def toLowerCase_def lower_char_def is_digit_def Let_def)
  have r: "replacement pid ''Document_minutes_3'' = badge_html ''event_note'' ''Document_minutes_3''"
    by (simp add: replacement_def parse_source_def Let_def toLowerCase_def lower_char_def
          match_name_id_def)
  have f: "find_close ''Document_minutes_3]]'' = Some (''Document_minutes_3'', [])"
    by (simp add: lt_at_def)
  have "transformCitations pid ''[[Document_minutes_3]]'' = replacement pid ''Document_minutes_3''"
    using transformCitations_token [OF f, of pid] by simp
  with m r show ?thesis by simp
qed

text \<open>
  Claim C9.  For every input, applying \<^verbatim>\<open>transformCitations\<close> to its own output gives that
  output again, for every project id that does not contain \<open>]]\<close> (the id is a route
  parameter and appears in the links to the knowledge base and to the files).  The lines of
  both templates hold no \<open>]]\<close>, and each ends before the next begins, so the output has no
  place where the pattern matches.
\<close>

theorem transformCitations_idempotent:
  assumes "no_rr projectId"
  shows "transformCitations projectId (transformCitations projectId html)
           = transformCitations projectId html"
  by (rule quiet_fixed [OF quiet_tc [OF assms]])

theorem transformCitations_idempotent_witness:
  "no_rr ''7'' \<and>
   transformCitations ''7'' (transformCitations ''7'' ''See [[Minutes_Standup_42]] and [[PRD_7]]'')
     = transformCitations ''7'' ''See [[Minutes_Standup_42]] and [[PRD_7]]''"
proof -
  have h: "no_rr ''7''" by simp
  from transformCitations_idempotent [OF h, of "''See [[Minutes_Standup_42]] and [[PRD_7]]''"] h
  show ?thesis by blast
qed

end
